theory Spec2Isabelle
  imports Complex_Main "HOL-Library.Word" "HOL-Library.Log_Nat"
begin

section \<open>JavaScript Number values\<close>

text \<open>
  The program \<^verbatim>\<open>zeta.js\<close> computes with JavaScript Numbers, which are IEEE 754
  binary64 values.  A Number is not-a-number, an infinity with a sign, or a finite value
  given by its sign bit and its magnitude, so that \<open>+0\<close> and \<open>-0\<close> are the two finite
  values of magnitude \<open>0\<close>.  The sign is \<open>True\<close> for a negative value.
\<close>

datatype number = NaN | Inf bool | Fin bool real

fun val :: "number \<Rightarrow> real" where
  "val (Fin sg m) = (if sg then - m else m)"
| "val (Inf sg) = 0"
| "val NaN = 0"

subsection \<open>Rounding to binary64\<close>

text \<open>
  The results of arithmetic are rounded to the nearest binary64 value, ties to the even
  significand.  A positive magnitude \<open>m\<close> with \<open>2 ^ e \<le> m < 2 ^ (e + 1)\<close> is rounded
  to a multiple of \<open>2 ^ (e - 52)\<close> (53 significant bits); below the normal range the
  exponent stays at \<open>-1022\<close> (subnormal numbers), and a rounded magnitude of \<open>2 ^ 1024\<close>
  or more overflows to an infinity.
\<close>

text \<open>
  The binary exponent of a positive magnitude \<open>m\<close>, the \<open>e\<close> with
  \<open>2 ^ e \<le> m < 2 ^ (e + 1)\<close>, read from the bit length of the integer part of \<open>m\<close>,
  or of \<open>1 / m\<close> when \<open>m\<close> is below \<open>1\<close>.
\<close>

definition binexp :: "real \<Rightarrow> int" where
  "binexp m = (if 1 \<le> m then bitlen \<lfloor>m\<rfloor> - 1 else - bitlen (\<lceil>1 / m\<rceil> - 1))"

definition quantum :: "real \<Rightarrow> real" where
  "quantum m = 2 powi (max (binexp m) (- 1022) - 52)"

definition round_even :: "real \<Rightarrow> int" where
  "round_even x =
     (let f = \<lfloor>x\<rfloor>; d = x - of_int f
      in if d < 1 / 2 then f else if 1 / 2 < d then f + 1
         else if even f then f else f + 1)"

definition rne :: "real \<Rightarrow> real" where
  "rne m = (if m = 0 then 0 else of_int (round_even (m / quantum m)) * quantum m)"

definition round_num :: "bool \<Rightarrow> real \<Rightarrow> number" where
  "round_num sg m = (let r = rne m in if 2 ^ 1024 \<le> r then Inf sg else Fin sg r)"

text \<open>A numeric literal of the source denotes the Number nearest to its decimal value.\<close>

definition lit :: "real \<Rightarrow> number" where
  "lit x = round_num False x"

subsection \<open>Arithmetic and comparison\<close>

text \<open>
  \<^verbatim>\<open>x + y\<close>, \<^verbatim>\<open>x * y\<close>, \<^verbatim>\<open>x / y\<close> and \<^verbatim>\<open>x < y\<close> on Numbers.  No operation raises: an
  invalid operation gives \<open>NaN\<close>, and \<open>NaN\<close> in an operand gives \<open>NaN\<close>.
\<close>

fun add :: "number \<Rightarrow> number \<Rightarrow> number" where
  "add NaN y = NaN"
| "add x NaN = NaN"
| "add (Inf a) (Inf b) = (if a = b then Inf a else NaN)"
| "add (Inf a) (Fin b y) = Inf a"
| "add (Fin a x) (Inf b) = Inf b"
| "add (Fin a x) (Fin b y) =
     (let r = val (Fin a x) + val (Fin b y)
      in if r = 0 then Fin (a \<and> b) 0 else round_num (r < 0) \<bar>r\<bar>)"

fun mul :: "number \<Rightarrow> number \<Rightarrow> number" where
  "mul NaN y = NaN"
| "mul x NaN = NaN"
| "mul (Inf a) (Inf b) = Inf (a \<noteq> b)"
| "mul (Inf a) (Fin b y) = (if y = 0 then NaN else Inf (a \<noteq> b))"
| "mul (Fin a x) (Inf b) = (if x = 0 then NaN else Inf (a \<noteq> b))"
| "mul (Fin a x) (Fin b y) = round_num (a \<noteq> b) (x * y)"

fun divide_num :: "number \<Rightarrow> number \<Rightarrow> number" where
  "divide_num NaN y = NaN"
| "divide_num x NaN = NaN"
| "divide_num (Inf a) (Inf b) = NaN"
| "divide_num (Inf a) (Fin b y) = Inf (a \<noteq> b)"
| "divide_num (Fin a x) (Inf b) = Fin (a \<noteq> b) 0"
| "divide_num (Fin a x) (Fin b y) =
     (if y = 0 then (if x = 0 then NaN else Inf (a \<noteq> b))
      else round_num (a \<noteq> b) (x / y))"

fun lt :: "number \<Rightarrow> number \<Rightarrow> bool" where
  "lt NaN y = False"
| "lt x NaN = False"
| "lt (Inf a) (Inf b) = (a \<and> \<not> b)"
| "lt (Inf a) (Fin b y) = a"
| "lt (Fin a x) (Inf b) = (\<not> b)"
| "lt (Fin a x) (Fin b y) = (val (Fin a x) < val (Fin b y))"

subsection \<open>Math.pow\<close>

text \<open>
  \<^verbatim>\<open>Math.pow(base, exponent)\<close> is fixed by the language for every special operand; for a
  finite non-zero base and a finite non-zero exponent the language asks only for an
  approximation of the power that the implementation chooses.  That approximation is the
  parameter \<open>pw\<close> of the model, applied to the values of base and exponent.
\<close>

fun odd_integer :: "number \<Rightarrow> bool" where
  "odd_integer (Fin sg m) = (m = of_int \<lfloor>m\<rfloor> \<and> odd \<lfloor>m\<rfloor>)"
| "odd_integer (Inf sg) = False"
| "odd_integer NaN = False"

fun integral :: "number \<Rightarrow> bool" where
  "integral (Fin sg m) = (m = of_int \<lfloor>m\<rfloor>)"
| "integral (Inf sg) = False"
| "integral NaN = False"

fun pow :: "(real \<Rightarrow> real \<Rightarrow> number) \<Rightarrow> number \<Rightarrow> number \<Rightarrow> number" where
  "pow pw base NaN = NaN"
| "pow pw NaN (Inf e) = NaN"
| "pow pw (Inf b) (Inf e) = (if e then Fin False 0 else Inf False)"
| "pow pw (Fin b x) (Inf e) =
     (if x = 0 then (if e then Inf False else Fin False 0)
      else if 1 < x then (if e then Fin False 0 else Inf False)
      else if x = 1 then NaN
      else (if e then Inf False else Fin False 0))"
| "pow pw base (Fin e y) =
     (if y = 0 then Fin False 1
      else case base of
        NaN \<Rightarrow> NaN
      | Inf b \<Rightarrow>
          (if \<not> b then (if \<not> e then Inf False else Fin False 0)
           else if \<not> e then Inf (odd_integer (Fin e y))
           else Fin (odd_integer (Fin e y)) 0)
      | Fin b x \<Rightarrow>
          (if x = 0 then
             (if \<not> b then (if \<not> e then Fin False 0 else Inf False)
              else if \<not> e then Fin (odd_integer (Fin e y)) 0
              else Inf (odd_integer (Fin e y)))
           else if b \<and> \<not> integral (Fin e y) then NaN
           else pw (val (Fin b x)) (val (Fin e y))))"

section \<open>The series summation\<close>

text \<open>
  \<^verbatim>\<open>for (let k = k0; k < n; k++) acc = body(k, acc)\<close>.  The counter \<open>k\<close> is a Number:
  \<^verbatim>\<open>k++\<close> adds \<open>1\<close> in binary64 and \<^verbatim>\<open>k < n\<close> compares Numbers, so the loop is not
  structurally recursive and a run that never leaves the loop has the value \<open>None\<close>.
\<close>

partial_function (option) for_loop ::
  "number \<Rightarrow> (number \<Rightarrow> 'a \<Rightarrow> 'a) \<Rightarrow> number \<Rightarrow> 'a \<Rightarrow> 'a option" where
  "for_loop n body k acc =
     (if lt k n then for_loop n body (add k (lit 1)) (body k acc) else Some acc)"

text \<open>
  \<^verbatim>\<open>
  function zeta(s) {
      const n = 1000;
      let sum = 0;
      for (let k = 1; k < n; k++) {
          sum += 1 / Math.pow(k, s);
      }
      return sum;
  }
  \<close>
\<close>

definition zeta_body :: "(real \<Rightarrow> real \<Rightarrow> number) \<Rightarrow> number \<Rightarrow> number \<Rightarrow> number \<Rightarrow> number" where
  "zeta_body pw s k sm = add sm (divide_num (lit 1) (pow pw k s))"

definition zeta :: "(real \<Rightarrow> real \<Rightarrow> number) \<Rightarrow> number \<Rightarrow> number option" where
  "zeta pw s = (let n = lit 1000; sm = lit 0 in for_loop n (zeta_body pw s) (lit 1) sm)"

text \<open>
  The same loop, recording instead of adding: the list of the terms
  \<^verbatim>\<open>1 / Math.pow(k, s)\<close> in the order in which \<open>zeta\<close> adds them.
\<close>

definition zeta_terms :: "(real \<Rightarrow> real \<Rightarrow> number) \<Rightarrow> number \<Rightarrow> number list option" where
  "zeta_terms pw s =
     for_loop (lit 1000) (\<lambda>k ts. ts @ [divide_num (lit 1) (pow pw k s)]) (lit 1) []"

text \<open>
  The series summation as the specification words it: \<open>k\<close> runs from \<open>1\<close> to \<open>999\<close>
  inclusive, \<open>1 / k ^ s\<close> is accumulated in that order, starting from \<open>0\<close>.
\<close>

definition indices :: "nat list" where
  "indices = [1..<Suc 999]"

definition series_sum :: "(real \<Rightarrow> real \<Rightarrow> number) \<Rightarrow> number \<Rightarrow> number" where
  "series_sum pw s =
     foldl (\<lambda>acc k. add acc (divide_num (Fin False 1) (pow pw (Fin False (real k)) s)))
       (Fin False 0) indices"

section \<open>Strings\<close>

text \<open>
  A JavaScript string is a sequence of 16-bit code units.  \<open>str\<close> embeds an ASCII
  literal; the sign \<^verbatim>\<open>U+2248\<close> of the output text is the code unit \<open>0x2248\<close>.
\<close>

type_synonym jsstring = "16 word list"

definition str :: "string \<Rightarrow> jsstring" where
  "str cs = map of_char cs"

definition is_space :: "16 word \<Rightarrow> bool" where
  "is_space c \<longleftrightarrow>
     c \<in> {0x9, 0xA, 0xB, 0xC, 0xD, 0x20, 0xA0, 0x1680, 0x2028, 0x2029, 0x202F, 0x205F,
          0x3000, 0xFEFF} \<or> (0x2000 \<le> c \<and> c \<le> 0x200A)"

definition is_digit :: "16 word \<Rightarrow> bool" where
  "is_digit c \<longleftrightarrow> 0x30 \<le> c \<and> c \<le> 0x39"

definition digits_val :: "jsstring \<Rightarrow> nat" where
  "digits_val ds = foldl (\<lambda>a c. 10 * a + (unat c - 48)) 0 ds"

fun starts_with :: "jsstring \<Rightarrow> jsstring \<Rightarrow> bool" where
  "starts_with [] s = True"
| "starts_with (p # ps) [] = False"
| "starts_with (p # ps) (c # cs) = (p = c \<and> starts_with ps cs)"

subsection \<open>parseFloat\<close>

text \<open>
  \<^verbatim>\<open>parseFloat(string)\<close> drops leading white space and reads the longest prefix that
  is a decimal literal: an optional sign, then \<^verbatim>\<open>Infinity\<close> or digits with an optional
  fraction and an optional exponent part.  What follows the prefix is ignored; when there
  is no such prefix the result is \<open>NaN\<close>.  The value of the literal is rounded to the
  nearest Number (the language lets an implementation drop the digits after the twentieth
  significant one; that freedom is not modelled).
\<close>

definition exponent_part :: "jsstring \<Rightarrow> int" where
  "exponent_part r =
     (case r of
        [] \<Rightarrow> 0
      | c # r1 \<Rightarrow>
          if c = 0x65 \<or> c = 0x45 then
            (case r1 of
               [] \<Rightarrow> 0
             | d # r2 \<Rightarrow>
                 if d = 0x2B then
                   (if takeWhile is_digit r2 = [] then 0
                    else int (digits_val (takeWhile is_digit r2)))
                 else if d = 0x2D then
                   (if takeWhile is_digit r2 = [] then 0
                    else - int (digits_val (takeWhile is_digit r2)))
                 else int (digits_val (takeWhile is_digit r1)))
          else 0)"

definition scale10 :: "real \<Rightarrow> int \<Rightarrow> real" where
  "scale10 x e = (if 0 \<le> e then x * 10 ^ nat e else x / 10 ^ nat (- e))"

definition unsigned_literal :: "bool \<Rightarrow> jsstring \<Rightarrow> number" where
  "unsigned_literal sg r =
     (if starts_with (str ''Infinity'') r then Inf sg
      else
        let ip = takeWhile is_digit r;
            r1 = dropWhile is_digit r;
            fp = (case r1 of [] \<Rightarrow> [] | c # r2 \<Rightarrow> if c = 0x2E then takeWhile is_digit r2 else []);
            r3 = (case r1 of [] \<Rightarrow> [] | c # r2 \<Rightarrow> if c = 0x2E then dropWhile is_digit r2 else r1)
        in if ip = [] \<and> fp = [] then NaN
           else
             let mv = scale10 (real (digits_val ip) + real (digits_val fp) / 10 ^ length fp)
                        (exponent_part r3)
             in if mv = 0 then Fin sg 0 else round_num sg mv)"

definition parseFloat :: "jsstring \<Rightarrow> number" where
  "parseFloat s =
     (case dropWhile is_space s of
        [] \<Rightarrow> NaN
      | c # r \<Rightarrow>
          if c = 0x2B then unsigned_literal False r
          else if c = 0x2D then unsigned_literal True r
          else unsigned_literal False (c # r))"

subsection \<open>Number.prototype.toFixed\<close>

text \<open>
  \<^verbatim>\<open>x.toFixed(f)\<close>: a value that is not finite prints as \<^verbatim>\<open>NaN\<close>, \<^verbatim>\<open>Infinity\<close> or
  \<^verbatim>\<open>-Infinity\<close>; a magnitude of \<open>10 ^ 21\<close> or more prints as the Number's ordinary string
  (exponent notation, the parameter \<open>ts\<close> of the model); any other value prints as the
  integer \<open>n\<close> nearest to \<open>x * 10 ^ f\<close> (the larger on a tie) with a point before its last
  \<open>f\<close> digits.  A number of digits outside \<open>0\<close> to \<open>100\<close> throws a \<^verbatim>\<open>RangeError\<close>.
\<close>

datatype error = TypeError | RangeError

function digits_of :: "nat \<Rightarrow> jsstring" where
  "digits_of n = (if n < 10 then [0x30 + of_nat n] else digits_of (n div 10) @ [0x30 + of_nat (n mod 10)])"
  by pat_completeness auto
termination
  by (relation "measure (\<lambda>n. n)") auto

declare digits_of.simps [simp del]

definition toFixed :: "(real \<Rightarrow> jsstring) \<Rightarrow> number \<Rightarrow> int \<Rightarrow> error + jsstring" where
  "toFixed ts x f =
     (if f < 0 \<or> 100 < f then Inl RangeError
      else case x of
        NaN \<Rightarrow> Inr (str ''NaN'')
      | Inf sg \<Rightarrow> Inr ((if sg then str ''-'' else []) @ str ''Infinity'')
      | Fin sg m \<Rightarrow>
          let s = (if val (Fin sg m) < 0 then str ''-'' else []);
              x = \<bar>val (Fin sg m)\<bar>
          in if 10 ^ 21 \<le> x then Inr (s @ ts x)
             else
               let n = nat \<lfloor>x * 10 ^ nat f + 1 / 2\<rfloor>;
                   m0 = digits_of n;
                   m1 = (if length m0 \<le> nat f then replicate (nat f + 1 - length m0) 0x30 @ m0 else m0)
               in if f = 0 then Inr (s @ m0)
                  else Inr (s @ take (length m1 - nat f) m1 @ str ''.'' @ drop (length m1 - nat f) m1))"

section \<open>The derived display value\<close>

text \<open>
  The page is a store of elements by id; an element has the text of its field
  (\<^verbatim>\<open>.value\<close>) and its displayed text (\<^verbatim>\<open>.innerText\<close>).
  \<^verbatim>\<open>document.getElementById\<close> gives \<^verbatim>\<open>null\<close> for an id that is not in the page, and
  reading or writing a property of \<^verbatim>\<open>null\<close> throws a \<^verbatim>\<open>TypeError\<close>.
  \<^verbatim>\<open>
  function calculate() {
      const t = parseFloat(document.getElementById("time").value);
      const realZeta = zeta(1 + t * 1e-6);
      const E = t * realZeta;
      document.getElementById("output").innerText = `E(t) \<approx> ${E.toFixed(6)}`;
  }
  \<close>
\<close>

record element =
  el_value :: jsstring
  el_innerText :: jsstring

type_synonym document = "string \<Rightarrow> element option"

definition calculate ::
  "(real \<Rightarrow> real \<Rightarrow> number) \<Rightarrow> (real \<Rightarrow> jsstring) \<Rightarrow> document \<Rightarrow> (error + document) option" where
  "calculate pw ts doc =
     (case doc ''time'' of
        None \<Rightarrow> Some (Inl TypeError)
      | Some inp \<Rightarrow>
          let t = parseFloat (el_value inp)
          in case zeta pw (add (lit 1) (mul t (lit (1 / 10 ^ 6)))) of
               None \<Rightarrow> None
             | Some realZeta \<Rightarrow>
                 let E = mul t realZeta
                 in case doc ''output'' of
                      None \<Rightarrow> Some (Inl TypeError)
                    | Some out \<Rightarrow>
                        (case toFixed ts E 6 of
                           Inl e \<Rightarrow> Some (Inl e)
                         | Inr txt \<Rightarrow>
                             Some (Inr (doc(''output'' \<mapsto>
                               out\<lparr>el_innerText := str ''E(t) '' @ [0x2248] @ str '' '' @ txt\<rparr>)))))"

section \<open>Notions used to state the properties\<close>

text \<open>
  A text has exactly six digits after the decimal point when it ends in a point followed
  by six decimal digits and has no other point.
\<close>

definition six_decimals :: "jsstring \<Rightarrow> bool" where
  "six_decimals txt \<longleftrightarrow>
     7 \<le> length txt \<and> txt ! (length txt - 7) = 0x2E \<and>
     list_all is_digit (drop (length txt - 6) txt) \<and>
     0x2E \<notin> set (take (length txt - 7) txt)"

text \<open>
  A numeric text: after leading white space and one optional sign it starts with
  \<^verbatim>\<open>Infinity\<close>, with a digit, or with a point and a digit.  Any other text, the empty
  one and the blank ones among them, is non-numeric.
\<close>

definition numeric_start :: "jsstring \<Rightarrow> bool" where
  "numeric_start u \<longleftrightarrow>
     starts_with (str ''Infinity'') u \<or>
     (case u of
        [] \<Rightarrow> False
      | c # r \<Rightarrow> is_digit c \<or> (c = 0x2E \<and> (case r of [] \<Rightarrow> False | d # r' \<Rightarrow> is_digit d)))"

definition numeric_text :: "jsstring \<Rightarrow> bool" where
  "numeric_text s \<longleftrightarrow>
     (case dropWhile is_space s of
        [] \<Rightarrow> False
      | c # r \<Rightarrow> if c = 0x2B \<or> c = 0x2D then numeric_start r else numeric_start (c # r))"

text \<open>\<^verbatim>\<open>x >= y\<close> on Numbers: false when an operand is \<open>NaN\<close>.\<close>

definition ge :: "number \<Rightarrow> number \<Rightarrow> bool" where
  "ge x y \<longleftrightarrow> x \<noteq> NaN \<and> y \<noteq> NaN \<and> \<not> lt x y"

text \<open>A Number that is \<open>+0\<close>, positive or \<open>+Infinity\<close>.\<close>

fun nonneg :: "number \<Rightarrow> bool" where
  "nonneg (Fin sg m) = (\<not> sg \<and> 0 \<le> m)"
| "nonneg (Inf sg) = (\<not> sg)"
| "nonneg NaN = False"

text \<open>
  A page with the field \<^verbatim>\<open>time\<close> holding a given text and an empty element
  \<^verbatim>\<open>output\<close>, and the correctly rounded power of a positive base (\<open>zeta\<close> has no
  other base) as one implementation of the approximation that \<^verbatim>\<open>Math.pow\<close> leaves
  open: the concrete inputs of the examples.
\<close>

definition page :: "jsstring \<Rightarrow> document" where
  "page txt =
     [''time'' \<mapsto> \<lparr>el_value = txt, el_innerText = []\<rparr>,
      ''output'' \<mapsto> \<lparr>el_value = [], el_innerText = []\<rparr>]"

definition rounded_pow :: "real \<Rightarrow> real \<Rightarrow> number" where
  "rounded_pow b e = round_num False (b powr e)"

text \<open>
  The harmonic partial sum of \<open>999\<close> terms, as a real number, and a lower estimate of
  it in units of \<open>10 ^ (- 10)\<close>, computed with integers: the sum of
  \<open>10 ^ 10 div k\<close> over \<open>n\<close> consecutive \<open>k\<close>.
\<close>

definition harmonic :: real where
  "harmonic = sum_list (map (\<lambda>k. 1 / real k) indices)"

primrec recip_floor_sum :: "nat \<Rightarrow> int \<Rightarrow> int \<Rightarrow> int" where
  "recip_floor_sum 0 k acc = acc"
| "recip_floor_sum (Suc n) k acc = recip_floor_sum n (k + 1) (acc + 10 ^ 10 div k)"

section \<open>Facts about rounding\<close>

lemma round_even_of_int: "round_even (of_int z) = z"
  by (simp add: round_even_def)

lemma round_even_err: "\<bar>of_int (round_even x) - x\<bar> \<le> 1 / 2"
proof -
  have "of_int \<lfloor>x\<rfloor> \<le> x" "x < of_int \<lfloor>x\<rfloor> + 1" by linarith+
  then show ?thesis
    by (auto simp: round_even_def Let_def)
qed

lemma round_even_ge: "of_int z \<le> x \<Longrightarrow> z \<le> round_even x"
proof -
  assume "of_int z \<le> x"
  then have "z \<le> \<lfloor>x\<rfloor>" by (simp add: le_floor_iff)
  then show ?thesis
    by (auto simp: round_even_def Let_def)
qed

lemma quantum_pos: "0 < quantum m"
  by (simp add: quantum_def)

lemma two_powi_nat: "0 \<le> e \<Longrightarrow> (2::real) powi e = 2 ^ nat e"
  by (simp add: power_int_def)

lemma binexp_bounds:
  assumes "0 < m"
  shows "2 powi binexp m \<le> m" and "m < 2 powi (binexp m + 1)"
proof -
  have "2 powi binexp m \<le> m \<and> m < 2 powi (binexp m + 1)"
  proof (cases "1 \<le> m")
    case True
    define z where "z = \<lfloor>m\<rfloor>"
    define b where "b = bitlen z"
    have z: "0 < z" using True by (simp add: z_def)
    have b1: "1 \<le> b" using z by (simp add: b_def bitlen_alt_def)
    have lo: "2 ^ nat (b - 1) \<le> z" and hi: "z < 2 ^ nat b"
      using bitlen_bounds [OF z] by (simp_all add: b_def)
    have "real_of_int (2 ^ nat (b - 1)) \<le> real_of_int z" using lo by (simp only: of_int_le_iff)
    then have "2 ^ nat (b - 1) \<le> real_of_int z" by (simp only: of_int_power of_int_numeral)
    moreover have "real_of_int z \<le> m" by (simp add: z_def)
    ultimately have 1: "2 ^ nat (b - 1) \<le> m" by linarith
    have "z + 1 \<le> 2 ^ nat b" using hi by simp
    then have "real_of_int (z + 1) \<le> real_of_int (2 ^ nat b)" by (simp only: of_int_le_iff)
    then have "real_of_int z + 1 \<le> 2 ^ nat b" by (simp only: of_int_power of_int_numeral of_int_add of_int_1)
    moreover have "m < real_of_int z + 1" unfolding z_def by linarith
    ultimately have 2: "m < 2 ^ nat b" by linarith
    have e: "binexp m = b - 1" using True by (simp add: binexp_def b_def z_def)
    have "(2::real) powi (b - 1) = 2 ^ nat (b - 1)" using b1 by (intro two_powi_nat) simp
    moreover have "(2::real) powi (b - 1 + 1) = 2 ^ nat b" using b1 by (simp add: two_powi_nat)
    ultimately show ?thesis using 1 2 by (simp only: e)
  next
    case False
    define x where "x = 1 / m"
    define n where "n = \<lceil>x\<rceil> - 1"
    define j where "j = bitlen n"
    have x1: "1 < x" using False assms by (simp add: x_def)
    then have n: "0 < n" unfolding n_def by linarith
    have j1: "1 \<le> j" using n by (simp add: j_def bitlen_alt_def)
    have lo: "2 ^ nat (j - 1) \<le> n" and hi: "n < 2 ^ nat j"
      using bitlen_bounds [OF n] by (simp_all add: j_def)
    have "real_of_int (2 ^ nat (j - 1)) \<le> real_of_int n" using lo by (simp only: of_int_le_iff)
    then have "2 ^ nat (j - 1) \<le> real_of_int n" by (simp only: of_int_power of_int_numeral)
    moreover have "real_of_int n < x" unfolding n_def by linarith
    ultimately have 1: "2 ^ nat (j - 1) < x" by linarith
    have "n + 1 \<le> 2 ^ nat j" using hi by simp
    then have "real_of_int (n + 1) \<le> real_of_int (2 ^ nat j)" by (simp only: of_int_le_iff)
    then have "real_of_int n + 1 \<le> 2 ^ nat j" by (simp only: of_int_power of_int_numeral of_int_add of_int_1)
    moreover have "x \<le> real_of_int n + 1" unfolding n_def by simp
    ultimately have 2: "x \<le> 2 ^ nat j" by linarith
    have e: "binexp m = - j" using False by (simp add: binexp_def j_def n_def x_def)
    have p: "(2::real) powi (- j) = 1 / 2 ^ nat j"
      using j1 by (simp add: power_int_minus_divide two_powi_nat)
    have q: "(2::real) powi (- j + 1) = 1 / 2 ^ nat (j - 1)"
    proof -
      have "- j + 1 = - (j - 1)" by simp
      then show ?thesis using j1 by (simp only: power_int_minus_divide) (simp add: two_powi_nat)
    qed
    have "1 / 2 ^ nat j \<le> m"
      using 2 assms unfolding x_def by (simp add: field_simps)
    moreover have "m < 1 / 2 ^ nat (j - 1)"
      using 1 assms unfolding x_def by (simp add: field_simps)
    ultimately show ?thesis by (simp only: e p q)
  qed
  then show "2 powi binexp m \<le> m" and "m < 2 powi (binexp m + 1)" by simp_all
qed

lemma binexp_ge:
  assumes "2 powi e \<le> m"
  shows "e \<le> binexp m"
proof (rule ccontr)
  assume "\<not> e \<le> binexp m"
  then have "binexp m + 1 \<le> e" by simp
  then have "(2::real) powi (binexp m + 1) \<le> 2 powi e" by (intro power_int_increasing) simp_all
  moreover have "0 < m" using assms by (smt (verit) zero_less_power_int)
  then have "m < 2 powi (binexp m + 1)" by (rule binexp_bounds(2))
  ultimately show False using assms by linarith
qed

lemma binexp_log:
  assumes "0 < m"
  shows "binexp m = \<lfloor>log 2 m\<rfloor>"
proof -
  have p: "2 powr real_of_int e = 2 powi e" for e
    by (rule powr_real_of_int') simp_all
  have "2 powr real_of_int (binexp m) \<le> m \<and> m < 2 powr (real_of_int (binexp m) + 1)"
    using binexp_bounds [OF assms] p [of "binexp m"] p [of "binexp m + 1"] by simp
  then show ?thesis
    using floor_log_eq_powr_iff [of m 2 "binexp m"] assms by simp
qed

lemma rne_err_quantum: "\<bar>rne m - m\<bar> \<le> quantum m / 2"
proof (cases "m = 0")
  case True
  then show ?thesis using quantum_pos [of m] by (simp add: rne_def)
next
  case False
  define q where "q = quantum m"
  define z where "z = real_of_int (round_even (m / q))"
  have q: "0 < q" unfolding q_def by (rule quantum_pos)
  have "\<bar>z - m / q\<bar> \<le> 1 / 2" unfolding z_def by (rule round_even_err)
  then have "\<bar>z - m / q\<bar> * q \<le> 1 / 2 * q"
    using q by (simp add: mult_right_mono)
  moreover have "\<bar>z - m / q\<bar> * q = \<bar>(z - m / q) * q\<bar>"
    using q by (simp add: abs_mult)
  moreover have "(z - m / q) * q = z * q - m"
    using q by (simp add: left_diff_distrib)
  ultimately have "\<bar>z * q - m\<bar> \<le> q / 2" by simp
  then show ?thesis using False by (simp add: rne_def z_def q_def)
qed

lemma quantum_normal:
  assumes "2 powi (- 1022) \<le> m"
  shows "quantum m \<le> m * 2 powi (- 52)"
proof -
  have m: "0 < m" using assms by (smt (verit) zero_less_power_int)
  define l where "l = binexp m"
  have "- 1022 \<le> l" unfolding l_def using assms by (rule binexp_ge)
  then have mx: "max l (- 1022) - 52 = l + (- 52)" by simp
  have "quantum m = 2 powi (l + (- 52))"
    unfolding quantum_def l_def [symmetric] mx ..
  also have "\<dots> = 2 powi l * 2 powi (- 52)"
    by (rule power_int_add) simp
  also have "\<dots> \<le> m * 2 powi (- 52)"
    using binexp_bounds(1) [OF m] unfolding l_def by (intro mult_right_mono) simp_all
  finally show ?thesis .
qed

lemma rne_err:
  assumes "2 powi (- 1022) \<le> m"
  shows "\<bar>rne m - m\<bar> \<le> m * 2 powi (- 53)"
proof -
  have "\<bar>rne m - m\<bar> \<le> quantum m / 2" by (rule rne_err_quantum)
  also have "\<dots> \<le> (m * 2 powi (- 52)) / 2" using quantum_normal [OF assms] by simp
  also have "\<dots> = m * 2 powi (- 53)" by simp
  finally show ?thesis .
qed

lemma rne_nonneg: "0 \<le> m \<Longrightarrow> 0 \<le> rne m"
proof -
  assume m: "0 \<le> m"
  have "of_int 0 \<le> m / quantum m" using m quantum_pos [of m] by simp
  then have "0 \<le> round_even (m / quantum m)" by (rule round_even_ge)
  then show ?thesis using quantum_pos [of m] by (simp add: rne_def)
qed

lemma rne_ge_pow2:
  assumes "0 \<le> e" and "2 powi e \<le> m"
  shows "2 powi e \<le> rne m"
proof -
  have m: "0 < m" using assms by (smt (verit) zero_less_power_int)
  define l where "l = binexp m"
  have el: "e \<le> l" unfolding l_def using assms(2) by (rule binexp_ge)
  then have mx: "max l (- 1022) = l" using assms(1) by simp
  have q: "quantum m = 2 powi (l - 52)"
    unfolding quantum_def l_def [symmetric] mx ..
  have "2 powi l = 2 powi (52 + (l - 52))" by simp
  also have "\<dots> = 2 powi 52 * (2::real) powi (l - 52)" by (rule power_int_add) simp
  finally have split: "2 powi l = 2 ^ 52 * quantum m" by (simp add: q)
  have "2 powi l \<le> m" unfolding l_def by (rule binexp_bounds(1) [OF m])
  then have "2 ^ 52 * quantum m / quantum m \<le> m / quantum m"
    unfolding split using quantum_pos [of m] by (intro divide_right_mono) simp_all
  then have "of_int (2 ^ 52) \<le> m / quantum m" using quantum_pos [of m] by simp
  then have "2 ^ 52 \<le> round_even (m / quantum m)" by (rule round_even_ge)
  then have "real_of_int (2 ^ 52) \<le> of_int (round_even (m / quantum m))"
    by (simp only: of_int_le_iff)
  then have "2 ^ 52 * quantum m \<le> of_int (round_even (m / quantum m)) * quantum m"
    using quantum_pos [of m] by (intro mult_right_mono) simp_all
  then have "2 powi l \<le> rne m" using m by (simp add: rne_def split)
  moreover have "(2::real) powi e \<le> 2 powi l" using el by (intro power_int_increasing) simp_all
  ultimately show ?thesis by linarith
qed

lemma rne_ge_1: "1 \<le> m \<Longrightarrow> 1 \<le> rne m"
  using rne_ge_pow2 [of 0 m] by simp

lemma rne_nat:
  assumes "n < 2 ^ 53"
  shows "rne (real n) = real n"
proof (cases "n = 0")
  case True
  then show ?thesis by (simp add: rne_def)
next
  case False
  define m where "m = real n"
  define l where "l = binexp m"
  have m: "0 < m" "m \<noteq> 0" using False by (simp_all add: m_def)
  have "2 powi 0 \<le> m" using False by (simp add: m_def)
  then have l0: "0 \<le> l" unfolding l_def by (rule binexp_ge)
  have "2 powi l \<le> m" unfolding l_def by (rule binexp_bounds(1) [OF m(1)])
  moreover have "m < 2 powi 53" using assms unfolding m_def
    by (metis of_nat_less_iff of_nat_numeral of_nat_power power_int_numeral)
  ultimately have "(2::real) powi l < 2 powi 53" by linarith
  then have l53: "l < 53" by (rule power_int_le_imp_less_exp [rotated]) simp_all
  define d where "d = nat (52 - l)"
  have mx: "max l (- 1022) = l" using l0 by simp
  have q: "quantum m = 2 powi (l - 52)"
    unfolding quantum_def l_def [symmetric] mx ..
  have "(2::real) powi (l - 52) * 2 powi (int d) = 2 powi ((l - 52) + int d)"
    by (rule power_int_add [symmetric]) simp
  also have "\<dots> = 1" using l53 by (simp add: d_def)
  finally have qd: "quantum m * 2 ^ d = 1" by (simp add: q)
  then have "m / quantum m = m * 2 ^ d"
    using quantum_pos [of m] by (simp add: field_simps)
  also have "\<dots> = of_int (int n * 2 ^ d)" by (simp add: m_def)
  finally have "round_even (m / quantum m) = int n * 2 ^ d"
    by (simp only: round_even_of_int)
  then have "rne m = of_int (int n * 2 ^ d) * quantum m" using m by (simp add: rne_def)
  also have "\<dots> = m * (quantum m * 2 ^ d)" by (simp add: m_def)
  finally have "rne m = m * 1" by (simp only: qd)
  then show ?thesis by (simp add: m_def)
qed

lemma round_num_nat:
  assumes "n < 2 ^ 53"
  shows "round_num sg (real n) = Fin sg (real n)"
proof -
  have "real n < 2 ^ 53" using assms
    by (metis of_nat_less_iff of_nat_numeral of_nat_power)
  moreover have "(2::real) ^ 53 \<le> 2 ^ 1024" by (rule power_increasing) simp_all
  ultimately have "\<not> 2 ^ 1024 \<le> real n" by linarith
  then show ?thesis by (simp only: round_num_def rne_nat [OF assms] Let_def if_False)
qed

lemma lit_nat: "n < 2 ^ 53 \<Longrightarrow> lit (real n) = Fin False (real n)"
  by (simp only: lit_def round_num_nat)

lemma lit_0: "lit 0 = Fin False 0"
  using lit_nat [of 0] by simp

lemma lit_1: "lit 1 = Fin False 1"
  using lit_nat [of 1] by simp

lemma lit_1000: "lit 1000 = Fin False 1000"
  using lit_nat [of 1000] by simp

section \<open>The loop of the series summation\<close>

lemma add_nat_1:
  assumes "Suc i < 2 ^ 53"
  shows "add (Fin False (real i)) (Fin False 1) = Fin False (real (Suc i))"
proof -
  have "0 \<le> real i" by simp
  then have "real i + 1 \<noteq> 0" by linarith
  moreover have "\<bar>real i + 1\<bar> = real (Suc i)" by simp
  moreover have "\<not> real i + 1 < 0" by linarith
  ultimately show ?thesis
    by (simp only: add.simps val.simps if_False Let_def round_num_nat [OF assms])
qed

lemma for_loop_nat:
  assumes "i \<le> n" and "n < 2 ^ 53"
  shows "for_loop (Fin False (real n)) body (Fin False (real i)) acc =
         Some (foldl (\<lambda>a k. body (Fin False (real k)) a) acc [i..<n])"
  using assms
proof (induction "n - i" arbitrary: i acc)
  case 0
  then have "i = n" by simp
  then show ?case by (subst for_loop.simps) simp
next
  case (Suc d)
  then have lt: "i < n" and d: "d = n - Suc i" and le: "Suc i \<le> n" by simp_all
  have s53: "Suc i < 2 ^ 53" using le Suc.prems(2) by linarith
  have "for_loop (Fin False (real n)) body (Fin False (real i)) acc =
        for_loop (Fin False (real n)) body (Fin False (real (Suc i))) (body (Fin False (real i)) acc)"
    using lt by (subst for_loop.simps) (simp add: lit_1 add_nat_1 [OF s53] del: add.simps)
  also have "\<dots> = Some (foldl (\<lambda>a k. body (Fin False (real k)) a) (body (Fin False (real i)) acc) [Suc i..<n])"
    by (rule Suc.hyps(1) [OF d le Suc.prems(2)])
  also have "\<dots> = Some (foldl (\<lambda>a k. body (Fin False (real k)) a) acc [i..<n])"
    using lt by (simp add: upt_conv_Cons)
  finally show ?case .
qed

lemma indices_upt: "[Suc 0..<1000] = indices"
proof -
  have "Suc 999 = 1000" by simp
  then show ?thesis by (simp only: indices_def One_nat_def)
qed

lemma zeta_fold:
  "zeta pw s = Some (foldl (\<lambda>sm k. zeta_body pw s (Fin False (real k)) sm) (Fin False 0) indices)"
proof -
  have "(1000::nat) < 2 ^ 53" by simp
  moreover have "Suc 0 \<le> 1000" by simp
  ultimately have "for_loop (Fin False (real 1000)) (zeta_body pw s) (Fin False (real (Suc 0))) (Fin False 0) =
        Some (foldl (\<lambda>sm k. zeta_body pw s (Fin False (real k)) sm) (Fin False 0) [Suc 0..<1000])"
    by (rule for_loop_nat [rotated])
  moreover have "real 1000 = 1000" "real (Suc 0) = 1" by simp_all
  ultimately show ?thesis
    by (simp only: zeta_def lit_0 lit_1 lit_1000 Let_def indices_upt)
qed

lemma zeta_terms_map:
  "zeta_terms pw s = Some (map (\<lambda>k. divide_num (Fin False 1) (pow pw (Fin False (real k)) s)) indices)"
proof -
  have "(1000::nat) < 2 ^ 53" by simp
  moreover have "Suc 0 \<le> 1000" by simp
  ultimately have "for_loop (Fin False (real 1000)) (\<lambda>k ts. ts @ [divide_num (Fin False 1) (pow pw k s)])
          (Fin False (real (Suc 0))) [] =
        Some (foldl (\<lambda>ts k. ts @ [divide_num (Fin False 1) (pow pw (Fin False (real k)) s)]) [] [Suc 0..<1000])"
    by (rule for_loop_nat [rotated])
  moreover have "foldl (\<lambda>ts k. ts @ [f k]) acc ks = acc @ map f ks" for f :: "nat \<Rightarrow> number" and acc ks
    by (induction ks arbitrary: acc) simp_all
  moreover have "real 1000 = 1000" "real (Suc 0) = 1" by simp_all
  ultimately show ?thesis
    by (simp only: zeta_terms_def lit_1 lit_1000 indices_upt append_Nil)
qed

lemma indices_Cons: "indices = 1 # [Suc 1..<Suc 999]"
  unfolding indices_def by (rule upt_conv_Cons) simp

lemma length_indices: "length indices = 999"
  by (simp only: indices_def length_upt One_nat_def diff_Suc_Suc diff_zero)

lemma set_indices: "k \<in> set indices \<longleftrightarrow> 1 \<le> k \<and> k \<le> 999"
  unfolding indices_def set_upt by auto

section \<open>Not-a-number in the series\<close>

lemma add_NaN_right: "add x NaN = NaN"
  by (cases x) simp_all

lemma foldl_add_NaN: "foldl (\<lambda>sm k. add sm (f k)) NaN ks = NaN"
  by (induction ks) simp_all

lemma foldl_add_map: "foldl add a (map f ks) = foldl (\<lambda>sm k. add sm (f k)) a ks"
  by (induction ks arbitrary: a) simp_all

lemma zeta_series_sum: "zeta pw s = Some (series_sum pw s)"
  by (simp only: zeta_fold series_sum_def zeta_body_def lit_1)

lemma series_sum_NaN: "series_sum pw NaN = NaN"
proof -
  have "divide_num (Fin False 1) (pow pw (Fin False (real 1)) NaN) = NaN" by simp
  then show ?thesis
    by (simp only: series_sum_def indices_Cons foldl_Cons add_NaN_right foldl_add_NaN)
qed

lemma series_sum_Inf: "series_sum pw (Inf sg) = NaN"
proof -
  have "divide_num (Fin False 1) (pow pw (Fin False (real 1)) (Inf sg)) = NaN" by simp
  then show ?thesis
    by (simp only: series_sum_def indices_Cons foldl_Cons add_NaN_right foldl_add_NaN)
qed

lemma zeta_terms_sum:
  "\<exists>ts. zeta_terms pw s = Some ts \<and> length ts = 999 \<and> zeta pw s = Some (foldl add (Fin False 0) ts)"
  by (simp add: zeta_terms_map zeta_series_sum series_sum_def foldl_add_map length_indices)

section \<open>Printing and the page\<close>

lemma toFixed_6_Fin:
  "toFixed ts (Fin sg m) 6 =
     (if 10 ^ 21 \<le> \<bar>val (Fin sg m)\<bar>
      then Inr ((if val (Fin sg m) < 0 then str ''-'' else []) @ ts \<bar>val (Fin sg m)\<bar>)
      else let m0 = digits_of (nat \<lfloor>\<bar>val (Fin sg m)\<bar> * 10 ^ 6 + 1 / 2\<rfloor>);
               m1 = (if length m0 \<le> 6 then replicate (7 - length m0) 0x30 @ m0 else m0)
           in Inr (((if val (Fin sg m) < 0 then str ''-'' else []) @ take (length m1 - 6) m1) @
                   [0x2E] @ drop (length m1 - 6) m1))"
proof -
  have n6: "nat 6 = 6" by simp
  have n7: "(6::nat) + 1 = 7" by simp
  have f: "\<not> ((6::int) < 0 \<or> 100 < (6::int))" "(6::int) \<noteq> 0" by simp_all
  have p: "str ''.'' = [0x2E]" by (simp add: str_def)
  show ?thesis
    unfolding toFixed_def Let_def number.case n6 n7 p
    by (simp only: f if_False append_assoc)
qed


lemma toFixed_6_NaN: "toFixed ts NaN 6 = Inr (str ''NaN'')"
  by (simp add: toFixed_def)

lemma toFixed_6_Inf: "toFixed ts (Inf sg) 6 = Inr ((if sg then str ''-'' else []) @ str ''Infinity'')"
  by (simp add: toFixed_def)

lemma digits_of_small: "n < 10 \<Longrightarrow> digits_of n = [0x30 + of_nat n]"
  by (simp add: digits_of.simps)

lemma digits_of_large:
  "10 \<le> n \<Longrightarrow> digits_of n = digits_of (n div 10) @ [0x30 + of_nat (n mod 10)]"
  by (subst digits_of.simps) simp

lemma is_digit_of_nat:
  assumes "d < 10"
  shows "is_digit (0x30 + of_nat d)"
proof -
  have "d = 0 \<or> d = 1 \<or> d = 2 \<or> d = 3 \<or> d = 4 \<or> d = 5 \<or> d = 6 \<or> d = 7 \<or> d = 8 \<or> d = 9"
    using assms by presburger
  then show ?thesis by (auto simp: is_digit_def)
qed

lemma digits_of_digits: "list_all is_digit (digits_of n) \<and> digits_of n \<noteq> []"
proof (induction n rule: digits_of.induct)
  case (1 n)
  show ?case
  proof (cases "n < 10")
    case True
    then show ?thesis by (simp add: digits_of_small is_digit_of_nat)
  next
    case False
    then have "list_all is_digit (digits_of (n div 10))" using "1" by simp
    moreover have "is_digit (0x30 + of_nat (n mod 10))" by (rule is_digit_of_nat) simp
    ultimately show ?thesis using False by (simp add: digits_of_large)
  qed
qed

lemma six_decimals_append:
  assumes "length b = 6" and "list_all is_digit b" and "0x2E \<notin> set p"
  shows "six_decimals (p @ [0x2E] @ b)"
  using assms by (simp add: six_decimals_def nth_append)

lemma toFixed_6_small:
  assumes "\<bar>val (Fin sg m)\<bar> < 10 ^ 21"
  shows "\<exists>p b. toFixed ts (Fin sg m) 6 = Inr (p @ [0x2E] @ b) \<and> length b = 6 \<and>
           list_all is_digit b \<and> 0x2E \<notin> set p"
proof -
  define s where "s = (if val (Fin sg m) < 0 then str ''-'' else [])"
  define m0 where "m0 = digits_of (nat \<lfloor>\<bar>val (Fin sg m)\<bar> * 10 ^ 6 + 1 / 2\<rfloor>)"
  define m1 where "m1 = (if length m0 \<le> 6 then replicate (7 - length m0) 0x30 @ m0 else m0)"
  have m0: "list_all is_digit m0" unfolding m0_def using digits_of_digits by blast
  have d0: "is_digit 0x30" by (simp add: is_digit_def)
  have m1: "\<forall>c\<in>set m1. is_digit c" using m0 d0 by (simp add: m1_def list_all_iff)
  have len: "7 \<le> length m1" by (simp add: m1_def)
  have small: "\<not> 10 ^ 21 \<le> \<bar>val (Fin sg m)\<bar>" using assms by linarith
  have eq: "toFixed ts (Fin sg m) 6 = Inr ((s @ take (length m1 - 6) m1) @ [0x2E] @ drop (length m1 - 6) m1)"
    unfolding toFixed_6_Fin Let_def s_def m0_def m1_def using small by (simp only: if_False)
  have "length (drop (length m1 - 6) m1) = 6" using len by simp
  moreover have "list_all is_digit (drop (length m1 - 6) m1)"
    using m1 by (auto simp: list_all_iff dest: in_set_dropD)
  moreover have "\<forall>c\<in>set (take (length m1 - 6) m1). is_digit c"
    using m1 by (auto dest: in_set_takeD)
  then have "\<forall>c\<in>set (take (length m1 - 6) m1). c \<noteq> 0x2E"
    by (auto simp: is_digit_def)
  then have "0x2E \<notin> set (s @ take (length m1 - 6) m1)"
    by (auto simp: s_def str_def)
  ultimately show ?thesis using eq by blast
qed


lemma toFixed_6_total: "\<exists>txt. toFixed ts x 6 = Inr txt"
proof (cases x)
  case NaN
  then show ?thesis by (simp only: toFixed_6_NaN) blast
next
  case (Inf sg)
  then show ?thesis by (simp only: toFixed_6_Inf) blast
next
  case (Fin sg m)
  show ?thesis
  proof (cases "10 ^ 21 \<le> \<bar>val (Fin sg m)\<bar>")
    case True
    then show ?thesis unfolding Fin toFixed_6_Fin by (simp only: if_True) blast
  next
    case False
    then show ?thesis unfolding Fin toFixed_6_Fin Let_def by (simp only: if_False) blast
  qed
qed

lemma calculate_elements:
  assumes "doc ''time'' = Some inp" and "doc ''output'' = Some out"
    and "toFixed ts (mul (parseFloat (el_value inp))
           (series_sum pw (add (Fin False 1) (mul (parseFloat (el_value inp)) (lit (1 / 10 ^ 6)))))) 6 = Inr txt"
  shows "calculate pw ts doc =
         Some (Inr (doc(''output'' \<mapsto> out\<lparr>el_innerText := str ''E(t) '' @ [0x2248] @ str '' '' @ txt\<rparr>)))"
  unfolding calculate_def Let_def
  by (simp only: assms option.case zeta_series_sum lit_1 sum.case)

lemma calculate_no_time: "doc ''time'' = None \<Longrightarrow> calculate pw ts doc = Some (Inl TypeError)"
  unfolding calculate_def Let_def by (simp only: option.case)

lemma calculate_no_output:
  "doc ''time'' = Some inp \<Longrightarrow> doc ''output'' = None \<Longrightarrow> calculate pw ts doc = Some (Inl TypeError)"
  unfolding calculate_def Let_def by (simp only: option.case zeta_series_sum)

lemma calculate_returns: "\<exists>r. calculate pw ts doc = Some r"
proof (cases "doc ''time''")
  case None
  then show ?thesis by (simp only: calculate_no_time) blast
next
  case (Some inp)
  show ?thesis
  proof (cases "doc ''output''")
    case None
    with Some show ?thesis by (simp only: calculate_no_output) blast
  next
    case (Some out)
    obtain w where "toFixed ts (mul (parseFloat (el_value inp))
           (series_sum pw (add (Fin False 1) (mul (parseFloat (el_value inp)) (lit (1 / 10 ^ 6)))))) 6 = Inr w"
      using toFixed_6_total by blast
    from calculate_elements [OF \<open>doc ''time'' = Some inp\<close> Some this] show ?thesis by blast
  qed
qed

lemma page_time: "page w ''time'' = Some \<lparr>el_value = w, el_innerText = []\<rparr>"
  by (simp add: page_def)

lemma page_output: "page w ''output'' = Some \<lparr>el_value = [], el_innerText = []\<rparr>"
  by (simp add: page_def)

lemma parseFloat_empty: "parseFloat [] = NaN"
  by (simp add: parseFloat_def)

lemma parseFloat_0: "parseFloat (str ''0'') = Fin False 0"
  by (simp add: parseFloat_def str_def is_space_def unsigned_literal_def is_digit_def
      digits_val_def scale10_def exponent_part_def)

lemma round_num_not_NaN: "round_num sg m \<noteq> NaN"
  by (simp add: round_num_def Let_def)

lemma unsigned_literal_NaN_iff: "unsigned_literal sg u = NaN \<longleftrightarrow> \<not> numeric_start u"
proof (cases "starts_with (str ''Infinity'') u")
  case True
  then show ?thesis by (simp add: unsigned_literal_def numeric_start_def)
next
  case False
  show ?thesis
  proof (cases u)
    case Nil
    then show ?thesis using False by (simp add: unsigned_literal_def numeric_start_def)
  next
    case (Cons c r)
    show ?thesis
    proof (cases "is_digit c")
      case True
      then show ?thesis
        using False Cons by (simp add: unsigned_literal_def numeric_start_def Let_def round_num_not_NaN)
    next
      case nd: False
      show ?thesis
      proof (cases "c = 0x2E")
        case True
        then show ?thesis
          using False Cons nd
          by (cases r) (simp_all add: unsigned_literal_def numeric_start_def Let_def round_num_not_NaN)
      next
        case np: False
        then show ?thesis
          using False Cons nd by (simp add: unsigned_literal_def numeric_start_def Let_def)
      qed
    qed
  qed
qed

lemma parseFloat_NaN_iff: "parseFloat s = NaN \<longleftrightarrow> \<not> numeric_text s"
proof (cases "dropWhile is_space s")
  case Nil
  show ?thesis unfolding parseFloat_def numeric_text_def Nil by simp
next
  case (Cons c r)
  show ?thesis
    unfolding parseFloat_def numeric_text_def Cons by (simp add: unsigned_literal_NaN_iff)
qed

lemma numeric_text_empty: "\<not> numeric_text []"
  by (simp add: numeric_text_def)

lemma numeric_text_blank:
  assumes "\<forall>c\<in>set s. is_space c"
  shows "\<not> numeric_text s"
proof -
  have "dropWhile is_space s = []" using assms by (simp only: dropWhile_eq_Nil_conv)
  show ?thesis unfolding numeric_text_def \<open>dropWhile is_space s = []\<close> by simp
qed

lemma mul_NaN_right: "mul x NaN = NaN"
  by (cases x) simp_all

lemma calculate_NaN:
  assumes "doc ''time'' = Some inp" and "doc ''output'' = Some out"
    and "parseFloat (el_value inp) = NaN"
  shows "calculate pw ts doc =
         Some (Inr (doc(''output'' \<mapsto> out\<lparr>el_innerText := str ''E(t) '' @ [0x2248] @ str '' NaN''\<rparr>)))"
proof -
  have "toFixed ts (mul (parseFloat (el_value inp))
           (series_sum pw (add (Fin False 1) (mul (parseFloat (el_value inp)) (lit (1 / 10 ^ 6)))))) 6
        = Inr (str ''NaN'')"
    by (simp only: assms(3) mul.simps toFixed_6_NaN)
  from calculate_elements [OF assms(1,2) this] show ?thesis by (simp add: str_def)
qed

lemma prefix_no_point: "0x2E \<notin> set (str ''E(t) '' @ [0x2248] @ str '' '')"
  by (simp add: str_def)

lemma calculate_six_decimals:
  assumes "doc ''time'' = Some inp" and "doc ''output'' = Some out"
    and "mul (parseFloat (el_value inp))
           (series_sum pw (add (Fin False 1) (mul (parseFloat (el_value inp)) (lit (1 / 10 ^ 6)))))
         = Fin sg m"
    and "\<bar>m\<bar> < 10 ^ 21"
  shows "\<exists>d r. calculate pw ts doc = Some (Inr d) \<and> d ''output'' = Some r \<and>
           six_decimals (el_innerText r)"
proof -
  have "\<bar>val (Fin sg m)\<bar> < 10 ^ 21" using assms(4) by simp
  then obtain p b where pb: "toFixed ts (Fin sg m) 6 = Inr (p @ [0x2E] @ b)"
    "length b = 6" "list_all is_digit b" "0x2E \<notin> set p"
    using toFixed_6_small by blast
  have "toFixed ts (mul (parseFloat (el_value inp))
           (series_sum pw (add (Fin False 1) (mul (parseFloat (el_value inp)) (lit (1 / 10 ^ 6)))))) 6
        = Inr (p @ [0x2E] @ b)"
    by (simp only: assms(3) pb(1))
  from calculate_elements [OF assms(1,2) this]
  have c: "calculate pw ts doc =
    Some (Inr (doc(''output'' \<mapsto>
       out\<lparr>el_innerText := str ''E(t) '' @ [0x2248] @ str '' '' @ p @ [0x2E] @ b\<rparr>)))" .
  have "0x2E \<notin> set ((str ''E(t) '' @ [0x2248] @ str '' '') @ p)"
    using prefix_no_point pb(4) by (simp only: set_append Un_iff) blast
  with pb(2,3) have "six_decimals (((str ''E(t) '' @ [0x2248] @ str '' '') @ p) @ [0x2E] @ b)"
    by (intro six_decimals_append)
  then have "six_decimals (str ''E(t) '' @ [0x2248] @ str '' '' @ p @ [0x2E] @ b)"
    by (simp only: append_assoc)
  with c show ?thesis by simp
qed

lemma calculate_deterministic:
  assumes "doc1 ''time'' = Some i1" and "doc2 ''time'' = Some i2"
    and "el_value i1 = el_value i2"
    and "doc1 ''output'' = Some o1" and "doc2 ''output'' = Some o2"
  shows "\<exists>d1 d2 r1 r2. calculate pw ts doc1 = Some (Inr d1) \<and> calculate pw ts doc2 = Some (Inr d2) \<and>
           d1 ''output'' = Some r1 \<and> d2 ''output'' = Some r2 \<and>
           el_innerText r1 = el_innerText r2 \<and>
           calculate pw ts d1 = Some (Inr d1)"
proof -
  obtain w where w: "toFixed ts (mul (parseFloat (el_value i1))
           (series_sum pw (add (Fin False 1) (mul (parseFloat (el_value i1)) (lit (1 / 10 ^ 6)))))) 6 = Inr w"
    using toFixed_6_total by blast
  define line where "line = str ''E(t) '' @ [0x2248] @ str '' '' @ w"
  define d1 where "d1 = doc1(''output'' \<mapsto> o1\<lparr>el_innerText := line\<rparr>)"
  define d2 where "d2 = doc2(''output'' \<mapsto> o2\<lparr>el_innerText := line\<rparr>)"
  have c1: "calculate pw ts doc1 = Some (Inr d1)"
    unfolding d1_def line_def by (rule calculate_elements [OF assms(1,4) w])
  have w2: "toFixed ts (mul (parseFloat (el_value i2))
           (series_sum pw (add (Fin False 1) (mul (parseFloat (el_value i2)) (lit (1 / 10 ^ 6)))))) 6 = Inr w"
    using w by (simp only: assms(3))
  have c2: "calculate pw ts doc2 = Some (Inr d2)"
    unfolding d2_def line_def by (rule calculate_elements [OF assms(2,5) w2])
  have t1: "d1 ''time'' = Some i1" using assms(1) by (simp add: d1_def)
  have r1: "d1 ''output'' = Some (o1\<lparr>el_innerText := line\<rparr>)" by (simp add: d1_def)
  have r2: "d2 ''output'' = Some (o2\<lparr>el_innerText := line\<rparr>)" by (simp add: d2_def)
  have "calculate pw ts d1 =
        Some (Inr (d1(''output'' \<mapsto> (o1\<lparr>el_innerText := line\<rparr>)\<lparr>el_innerText := line\<rparr>)))"
    unfolding line_def by (rule calculate_elements [OF t1 r1 [unfolded line_def] w])
  also have "d1(''output'' \<mapsto> (o1\<lparr>el_innerText := line\<rparr>)\<lparr>el_innerText := line\<rparr>) = d1"
    by (simp add: d1_def)
  finally have again: "calculate pw ts d1 = Some (Inr d1)" .
  show ?thesis using c1 c2 r1 r2 again by simp
qed

lemma foldl_count: "foldl (\<lambda>c k. Suc c) n ks = n + length ks"
  by (induction ks arbitrary: n) simp_all

lemma loop_count: "for_loop (lit 1000) (\<lambda>k c. Suc c) (lit 1) 0 = Some 999"
proof -
  have "(1000::nat) < 2 ^ 53" by simp
  moreover have "Suc 0 \<le> 1000" by simp
  ultimately have "for_loop (Fin False (real 1000)) (\<lambda>k c. Suc c) (Fin False (real (Suc 0))) 0 =
        Some (foldl (\<lambda>c k. Suc c) 0 [Suc 0..<1000])"
    by (rule for_loop_nat [rotated])
  moreover have "real 1000 = 1000" "real (Suc 0) = 1" by simp_all
  ultimately show ?thesis
    by (simp only: lit_1 lit_1000 indices_upt foldl_count length_indices add_0)
qed

section \<open>A lower bound of the series\<close>

lemma round_num_nonneg: "0 \<le> x \<Longrightarrow> nonneg (round_num False x)"
  by (simp add: round_num_def Let_def rne_nonneg)

lemma round_num_ge_1:
  assumes "1 \<le> x"
  shows "ge (round_num False x) (Fin False 1)"
proof -
  have "1 \<le> rne x" using assms by (rule rne_ge_1)
  then show ?thesis by (simp add: round_num_def Let_def ge_def)
qed

lemma divide_nonneg:
  assumes "nonneg p"
  shows "nonneg (divide_num (Fin False 1) p)"
proof (cases p)
  case (Fin sg y)
  then have "\<not> sg" "0 \<le> y" using assms by simp_all
  then show ?thesis using Fin by (simp add: round_num_nonneg)
qed (use assms in simp_all)

lemma pow_nonneg:
  assumes "\<forall>b e. 1 \<le> b \<longrightarrow> nonneg (pw b e)" and "1 \<le> k"
  shows "nonneg (pow pw (Fin False (real k)) (Fin sg m))"
proof -
  have "1 \<le> real k" using assms(2) by simp
  then have "nonneg (pw (real k) e)" for e using assms(1) by blast
  then show ?thesis using assms(2) by simp
qed

lemma first_term:
  assumes "\<forall>e. pw 1 e = Fin False 1"
  shows "divide_num (Fin False 1) (pow pw (Fin False (real 1)) (Fin sg m)) = Fin False 1"
proof -
  have "pow pw (Fin False (real 1)) (Fin sg m) = Fin False 1"
    by (simp add: assms)
  moreover have "round_num False (real 1) = Fin False (real 1)" by (rule round_num_nat) simp
  ultimately show ?thesis by simp
qed

lemma add_ge_1:
  assumes "ge a (Fin False 1)" and "nonneg t"
  shows "ge (add a t) (Fin False 1)"
proof (cases a)
  case NaN
  then show ?thesis using assms by (simp add: ge_def)
next
  case (Inf sa)
  then have "\<not> sa" using assms(1) by (simp add: ge_def)
  then show ?thesis using Inf assms(2) by (cases t) (simp_all add: ge_def)
next
  case (Fin sa x)
  then have a: "1 \<le> val (Fin sa x)" using assms(1) by (simp add: ge_def)
  show ?thesis
  proof (cases t)
    case NaN
    then show ?thesis using assms(2) by simp
  next
    case (Inf st)
    then show ?thesis using assms(2) Fin by (simp add: ge_def)
  next
    case (Fin st y)
    then have y: "\<not> st" "0 \<le> y" using assms(2) by simp_all
    define r where "r = val (Fin sa x) + val (Fin st y)"
    have r: "1 \<le> r" using a y by (simp add: r_def)
    then have "add (Fin sa x) (Fin st y) = round_num False r"
      by (simp add: r_def [symmetric] Let_def del: val.simps)
    then show ?thesis using round_num_ge_1 [OF r] \<open>a = Fin sa x\<close> Fin by simp
  qed
qed

lemma foldl_add_ge_1:
  assumes "ge a (Fin False 1)" and "\<forall>k\<in>set ks. nonneg (f k)"
  shows "ge (foldl (\<lambda>sm k. add sm (f k)) a ks) (Fin False 1)"
  using assms by (induction ks arbitrary: a) (simp_all add: add_ge_1)

lemma series_sum_ge_1:
  assumes "\<forall>e. pw 1 e = Fin False 1" and "\<forall>b e. 1 \<le> b \<longrightarrow> nonneg (pw b e)"
  shows "ge (series_sum pw (Fin sg m)) (Fin False 1)"
proof -
  define f where "f k = divide_num (Fin False 1) (pow pw (Fin False (real k)) (Fin sg m))" for k
  have first: "add (Fin False 0) (f 1) = Fin False 1"
  proof -
    have "f 1 = Fin False 1" unfolding f_def by (rule first_term [where pw = pw]) (rule assms(1))
    moreover have "round_num False (real 1) = Fin False (real 1)" by (rule round_num_nat) simp
    ultimately show ?thesis by simp
  qed
  have "nonneg (f k)" if "1 \<le> k" for k
    unfolding f_def by (rule divide_nonneg, rule pow_nonneg [where pw = pw]) (rule assms(2), rule that)
  then have rest: "\<forall>k\<in>set [Suc 1..<Suc 999]. nonneg (f k)" by simp
  have "ge (Fin False 1) (Fin False 1)" by (simp add: ge_def)
  then have "ge (foldl (\<lambda>sm k. add sm (f k)) (Fin False 1) [Suc 1..<Suc 999]) (Fin False 1)"
    using rest by (rule foldl_add_ge_1)
  then show ?thesis
    unfolding series_sum_def indices_Cons foldl_Cons f_def [symmetric] first .
qed

lemma rounded_pow_1: "rounded_pow 1 e = Fin False 1"
proof -
  have "round_num False (real 1) = Fin False (real 1)" by (rule round_num_nat) simp
  then show ?thesis by (simp add: rounded_pow_def)
qed

lemma rounded_pow_nonneg: "nonneg (rounded_pow b e)"
  unfolding rounded_pow_def by (rule round_num_nonneg) simp

section \<open>The harmonic partial sum and its binary64 accumulation\<close>

lemma recip_floor_sum_list:
  "recip_floor_sum n (int k) acc = acc + sum_list (map (\<lambda>j. 10 ^ 10 div int j) [k..<k + n])"
proof (induction n arbitrary: k acc)
  case 0
  then show ?case by simp
next
  case (Suc n)
  have "k < k + Suc n" by simp
  from upt_conv_Cons [OF this] have l: "[k..<k + Suc n] = k # [Suc k..<Suc k + n]" by simp
  have "recip_floor_sum (Suc n) (int k) acc =
        recip_floor_sum n (int (Suc k)) (acc + 10 ^ 10 div int k)"
    by (simp add: add.commute)
  also have "\<dots> = (acc + 10 ^ 10 div int k) +
        sum_list (map (\<lambda>j. 10 ^ 10 div int j) [Suc k..<Suc k + n])"
    by (rule Suc.IH)
  also have "\<dots> = acc + sum_list (map (\<lambda>j. 10 ^ 10 div int j) (k # [Suc k..<Suc k + n]))"
    by simp
  finally show ?case by (simp only: l)
qed

lemma recip_bounds:
  assumes "1 \<le> k"
  shows "real_of_int (10 ^ 10 div int k) / 10 ^ 10 \<le> 1 / real k"
    and "1 / real k \<le> (real_of_int (10 ^ 10 div int k) + 1) / 10 ^ 10"
proof -
  define q where "q = (10 ^ 10 :: int) div int k"
  have k: "0 < int k" using assms by simp
  have "q * int k \<le> 10 ^ 10" unfolding q_def using k
    by (metis div_mult_mod_eq le_add_same_cancel1 pos_mod_sign)
  then have "real_of_int (q * int k) \<le> real_of_int (10 ^ 10)" by (simp only: of_int_le_iff)
  then have lo: "real_of_int q * real k \<le> 10 ^ 10" by simp
  have "10 ^ 10 < (q + 1) * int k" unfolding q_def using k
    by (metis add.commute div_mult_mod_eq distrib_right mult.commute mult_1 add_strict_left_mono pos_mod_bound)
  then have "real_of_int (10 ^ 10) < real_of_int ((q + 1) * int k)" by (simp only: of_int_less_iff)
  then have hi: "10 ^ 10 < (real_of_int q + 1) * real k" by simp
  have rk: "0 < real k" using assms by simp
  show "real_of_int (10 ^ 10 div int k) / 10 ^ 10 \<le> 1 / real k"
    using lo rk unfolding q_def [symmetric] by (simp add: field_simps)
  show "1 / real k \<le> (real_of_int (10 ^ 10 div int k) + 1) / 10 ^ 10"
    using hi rk unfolding q_def [symmetric] by (simp add: field_simps)
qed

lemma recip_sum_bounds:
  assumes "\<forall>k\<in>set ks. 1 \<le> k"
  shows "real_of_int (sum_list (map (\<lambda>j. 10 ^ 10 div int j) ks)) / 10 ^ 10
           \<le> sum_list (map (\<lambda>k. 1 / real k) ks)"
    and "sum_list (map (\<lambda>k. 1 / real k) ks)
           \<le> (real_of_int (sum_list (map (\<lambda>j. 10 ^ 10 div int j) ks)) + real (length ks)) / 10 ^ 10"
  using assms
proof (induction ks)
  case Nil
  { case 1 show ?case by simp }
  { case 2 show ?case by simp }
next
  case (Cons k ks)
  { case 1
    then have "1 \<le> k" and "\<forall>k\<in>set ks. 1 \<le> k" by simp_all
    with Cons.IH(1) recip_bounds(1) [of k] show ?case
      by (simp add: add_divide_distrib) }
  { case 2
    then have "1 \<le> k" and "\<forall>k\<in>set ks. 1 \<le> k" by simp_all
    with Cons.IH(2) recip_bounds(2) [of k] show ?case
      by (simp add: add_divide_distrib) }
qed

lemma recip_floor_sum_999: "recip_floor_sum 999 1 0 = 74844708121"
  by code_simp

lemma indices_floor_sum: "sum_list (map (\<lambda>j. 10 ^ 10 div int j) indices) = 74844708121"
proof -
  have i: "indices = [1..<1 + 999]" by (simp only: indices_def plus_1_eq_Suc)
  have "int 1 = 1" by simp
  with recip_floor_sum_list [of 999 1 0] show ?thesis
    by (simp only: i recip_floor_sum_999 add_0)
qed

lemma harmonic_bounds: "74844708121 / 10 ^ 10 \<le> harmonic" "harmonic \<le> 74844709120 / 10 ^ 10"
proof -
  have ks: "\<forall>k\<in>set indices. 1 \<le> k" by (simp add: set_indices)
  from recip_sum_bounds(1) [OF ks] show "74844708121 / 10 ^ 10 \<le> harmonic"
    by (simp only: indices_floor_sum harmonic_def)
  from recip_sum_bounds(2) [OF ks] show "harmonic \<le> 74844709120 / 10 ^ 10"
    by (simp only: indices_floor_sum harmonic_def length_indices) simp
qed

lemma normal_of_milli:
  assumes "1 / 1000 \<le> (m::real)"
  shows "2 powi (- 1022) \<le> m"
proof -
  have "(2::real) powi (- 1022) \<le> 2 powi (- 10)" by (rule power_int_increasing) simp_all
  also have "\<dots> \<le> 1 / 1000" by simp
  finally show ?thesis using assms by linarith
qed

lemma round_num_moderate:
  assumes "1 / 1000 \<le> m" and "m \<le> 16"
  shows "\<exists>r. round_num sg m = Fin sg r \<and> 0 \<le> r \<and> \<bar>r - m\<bar> \<le> m / 2 ^ 53"
proof -
  have e: "\<bar>rne m - m\<bar> \<le> m * 2 powi (- 53)"
    by (rule rne_err, rule normal_of_milli, rule assms(1))
  have p53: "(2::real) powi (- 53) = 1 / 2 ^ 53" by (simp add: power_int_minus_divide)
  have e': "\<bar>rne m - m\<bar> \<le> m / 2 ^ 53" using e unfolding p53 by simp
  have "m / 2 ^ 53 \<le> m" using assms(1) by (simp add: field_simps)
  then have "rne m \<le> 32" using e' assms(2) by linarith
  moreover have "(32::real) < 2 ^ 1024"
  proof -
    have "(2::real) ^ 5 < 2 ^ 1024" by (rule power_strict_increasing) simp_all
    then show ?thesis by simp
  qed
  ultimately have "\<not> 2 ^ 1024 \<le> rne m" by linarith
  then have "round_num sg m = Fin sg (rne m)" by (simp only: round_num_def Let_def if_False)
  moreover have "0 \<le> rne m" by (rule rne_nonneg) (use assms(1) in linarith)
  ultimately show ?thesis using e' by blast
qed

section \<open>The input zero\<close>

lemma harmonic_term:
  assumes "1 \<le> k" and "k \<le> 999" and "pw (real k) 1 = Fin False (real k)"
  shows "\<exists>t. divide_num (Fin False 1) (pow pw (Fin False (real k)) (Fin False 1)) = Fin False t \<and>
           1 / 1000 \<le> t \<and> t \<le> 2 \<and> \<bar>t - 1 / real k\<bar> \<le> 1 / 2 ^ 53"
proof -
  define u where "u = (1::real) / 2 ^ 53"
  define x where "x = 1 / real k"
  have u: "0 < u" "u \<le> 1 / 10 ^ 6" by (simp_all add: u_def)
  have k: "0 < real k" "real k \<le> 999" using assms(1,2) by simp_all
  have p: "pow pw (Fin False (real k)) (Fin False 1) = Fin False (real k)"
    using assms(1,3) by simp
  have lo: "1 / 999 \<le> x" unfolding x_def using k by (simp add: field_simps)
  have hi: "x \<le> 1" unfolding x_def using assms(1) by simp
  have "1 / 1000 \<le> x" "x \<le> 16" using lo hi by simp_all
  then obtain t where t: "round_num False x = Fin False t" "0 \<le> t" "\<bar>t - x\<bar> \<le> x / 2 ^ 53"
    using round_num_moderate by blast
  have "x / 2 ^ 53 = x * u" by (simp add: u_def)
  moreover have "x * u \<le> 1 * u" using hi u(1) by (intro mult_right_mono) simp_all
  ultimately have e: "\<bar>t - x\<bar> \<le> u" using t(3) by linarith
  have "divide_num (Fin False 1) (pow pw (Fin False (real k)) (Fin False 1)) = Fin False t"
    unfolding p using k(1) t(1) by (simp add: x_def)
  moreover have "1 / 1000 \<le> t" using e lo u(2) by simp
  moreover have "t \<le> 2" using e hi u(2) by simp
  ultimately show ?thesis using e unfolding u_def x_def by blast
qed

lemma harmonic_step:
  assumes "1 \<le> k" and "k \<le> 999" and "pw (real k) 1 = Fin False (real k)"
    and "0 \<le> a" and "a \<le> 8"
  shows "\<exists>r. add (Fin False a) (divide_num (Fin False 1) (pow pw (Fin False (real k)) (Fin False 1)))
             = Fin False r \<and> 0 \<le> r \<and> \<bar>r - (a + 1 / real k)\<bar> \<le> 1 / 2 ^ 49"
proof -
  define u where "u = (1::real) / 2 ^ 53"
  define x where "x = 1 / real k"
  have u: "0 < u" "1 / 2 ^ 49 = 16 * u" by (simp_all add: u_def)
  obtain t where t: "divide_num (Fin False 1) (pow pw (Fin False (real k)) (Fin False 1)) = Fin False t"
      "1 / 1000 \<le> t" "t \<le> 2" "\<bar>t - x\<bar> \<le> u"
    using harmonic_term [where pw = pw, OF assms(1-3)] unfolding u_def x_def by blast
  have "1 / 1000 \<le> a + t" "a + t \<le> 16" using assms(4,5) t(2,3) by simp_all
  then obtain r where r: "round_num False (a + t) = Fin False r" "0 \<le> r"
      "\<bar>r - (a + t)\<bar> \<le> (a + t) / 2 ^ 53"
    using round_num_moderate by blast
  have "a + t \<le> 10" using assms(5) t(3) by simp
  then have "(a + t) * u \<le> 10 * u" using u(1) by (intro mult_right_mono) simp_all
  moreover have "(a + t) / 2 ^ 53 = (a + t) * u" by (simp add: u_def)
  ultimately have "\<bar>r - (a + t)\<bar> \<le> 10 * u" using r(3) by linarith
  then have "\<bar>r - (a + x)\<bar> \<le> 16 * u" using t(4) u(1) by linarith
  then have e: "\<bar>r - (a + 1 / real k)\<bar> \<le> 1 / 2 ^ 49" unfolding u(2) x_def .
  have pos: "a + t \<noteq> 0" "\<not> a + t < 0" "\<bar>a + t\<bar> = a + t" using assms(4) t(2) by simp_all
  have "add (Fin False a) (Fin False t) = round_num False (a + t)"
    using pos by (simp add: Let_def)
  then show ?thesis using t(1) r(1,2) e by simp
qed

lemma harmonic_fold:
  assumes "\<forall>k\<in>set ks. 1 \<le> k \<and> k \<le> 999 \<and> pw (real k) 1 = Fin False (real k)"
    and "0 \<le> a" and "\<bar>a - A\<bar> \<le> E"
    and "A + sum_list (map (\<lambda>k. 1 / real k) ks) \<le> 15 / 2"
    and "E + real (length ks) / 2 ^ 49 \<le> 1 / 4"
  shows "\<exists>r. foldl (\<lambda>sm k. add sm (divide_num (Fin False 1) (pow pw (Fin False (real k)) (Fin False 1))))
               (Fin False a) ks = Fin False r \<and> 0 \<le> r \<and>
             \<bar>r - (A + sum_list (map (\<lambda>k. 1 / real k) ks))\<bar> \<le> E + real (length ks) / 2 ^ 49"
  using assms
proof (induction ks arbitrary: a A E)
  case Nil
  then show ?case by simp
next
  case (Cons k ks)
  define c where "c = (1::real) / 2 ^ 49"
  define L where "L = real (length ks) / 2 ^ 49"
  define S where "S = sum_list (map (\<lambda>k. 1 / real k) ks)"
  define x where "x = 1 / real k"
  have k: "1 \<le> k" "k \<le> 999" "pw (real k) 1 = Fin False (real k)"
    using Cons.prems(1) by simp_all
  have rest: "\<forall>k\<in>set ks. 1 \<le> k \<and> k \<le> 999 \<and> pw (real k) 1 = Fin False (real k)"
    using Cons.prems(1) by simp
  have S0: "0 \<le> S" unfolding S_def by (rule sum_list_nonneg) auto
  have x0: "0 \<le> x" by (simp add: x_def)
  have c0: "0 \<le> c" by (simp add: c_def)
  have L0: "0 \<le> L" by (simp add: L_def)
  have splitS: "sum_list (map (\<lambda>k. 1 / real k) (k # ks)) = x + S" by (simp add: x_def S_def)
  have splitL: "real (length (k # ks)) / 2 ^ 49 = c + L"
    by (simp add: c_def L_def add_divide_distrib)
  have p4: "A + (x + S) \<le> 15 / 2" using Cons.prems(4) unfolding splitS .
  have p5: "E + (c + L) \<le> 1 / 4" using Cons.prems(5) unfolding splitL .
  have a8: "a \<le> 8" using p4 p5 Cons.prems(3) S0 x0 c0 L0 by linarith
  obtain r where r: "add (Fin False a) (divide_num (Fin False 1) (pow pw (Fin False (real k)) (Fin False 1)))
             = Fin False r" "0 \<le> r" "\<bar>r - (a + x)\<bar> \<le> c"
    using harmonic_step [where pw = pw, OF k Cons.prems(2) a8] unfolding c_def x_def by blast
  have e: "\<bar>r - (A + x)\<bar> \<le> E + c" using r(3) Cons.prems(3) by linarith
  have s: "(A + x) + S \<le> 15 / 2" using p4 by linarith
  have l: "(E + c) + L \<le> 1 / 4" using p5 by linarith
  from Cons.IH [where a = r and A = "A + x" and E = "E + c", OF rest r(2) e s [unfolded S_def] l [unfolded L_def]]
  obtain r' where r':
    "foldl (\<lambda>sm k. add sm (divide_num (Fin False 1) (pow pw (Fin False (real k)) (Fin False 1))))
               (Fin False r) ks = Fin False r'" "0 \<le> r'"
    "\<bar>r' - ((A + x) + S)\<bar> \<le> (E + c) + L"
    unfolding S_def L_def by blast
  have "\<bar>r' - (A + (x + S))\<bar> \<le> E + (c + L)" using r'(3) by linarith
  then have "\<bar>r' - (A + sum_list (map (\<lambda>k. 1 / real k) (k # ks)))\<bar> \<le> E + real (length (k # ks)) / 2 ^ 49"
    unfolding splitS splitL .
  moreover have "foldl (\<lambda>sm k. add sm (divide_num (Fin False 1) (pow pw (Fin False (real k)) (Fin False 1))))
               (Fin False a) (k # ks) = Fin False r'"
    by (simp only: foldl_Cons r(1) r'(1))
  ultimately show ?case using r'(2) by blast
qed

lemma series_sum_harmonic:
  assumes "\<forall>k. 1 \<le> k \<and> k \<le> 999 \<longrightarrow> pw (real k) 1 = Fin False (real k)"
  shows "\<exists>r. series_sum pw (Fin False 1) = Fin False r \<and> \<bar>r - harmonic\<bar> \<le> 999 / 2 ^ 49"
proof -
  have ks: "\<forall>k\<in>set indices. 1 \<le> k \<and> k \<le> 999 \<and> pw (real k) 1 = Fin False (real k)"
    using assms by (simp add: set_indices)
  have h: "0 + sum_list (map (\<lambda>k. 1 / real k) indices) \<le> 15 / 2"
    using harmonic_bounds(2) by (simp add: harmonic_def)
  have l: "0 + real (length indices) / 2 ^ 49 \<le> 1 / 4" by (simp add: length_indices)
  have a: "\<bar>0 - 0\<bar> \<le> (0::real)" "(0::real) \<le> 0" by simp_all
  from harmonic_fold [where pw = pw, OF ks a(2) a(1) h l]
  obtain r where r: "series_sum pw (Fin False 1) = Fin False r"
    "\<bar>r - (0 + harmonic)\<bar> \<le> 0 + real (length indices) / 2 ^ 49"
    unfolding series_sum_def harmonic_def by blast
  have "\<bar>r - harmonic\<bar> \<le> 999 / 2 ^ 49" using r(2) by (simp only: add_0 length_indices)
  with r(1) show ?thesis by blast
qed


lemma lit_micro: "\<exists>q. lit (1 / 10 ^ 6) = Fin False q"
proof -
  define m where "m = (1::real) / 10 ^ 6"
  have m: "0 \<le> m" "m \<le> 1" by (simp_all add: m_def)
  have "2 powi (- 1022) \<le> m"
  proof -
    have "(2::real) powi (- 1022) \<le> 2 powi (- 20)" by (rule power_int_increasing) simp_all
    also have "\<dots> \<le> m" by (simp add: m_def)
    finally show ?thesis .
  qed
  then have "\<bar>rne m - m\<bar> \<le> m * 2 powi (- 53)" by (rule rne_err)
  moreover have "m * 2 powi (- 53) \<le> 1 * 2 powi (- 53)" using m by (intro mult_right_mono) simp_all
  moreover have "(2::real) powi (- 53) \<le> 1" by simp
  ultimately have "rne m \<le> 2" using m by linarith
  moreover have "(2::real) < 2 ^ 1024"
  proof -
    have "(2::real) ^ 1 < 2 ^ 1024" by (rule power_strict_increasing) simp_all
    then show ?thesis by simp
  qed
  ultimately have "\<not> 2 ^ 1024 \<le> rne m" by linarith
  then show ?thesis by (simp add: lit_def round_num_def Let_def m_def)
qed

lemma round_num_0: "round_num sg 0 = Fin sg 0"
  using round_num_nat [of 0 sg] by simp

lemma exponent_at_zero: "add (lit 1) (mul (Fin sg 0) (lit (1 / 10 ^ 6))) = Fin False 1"
proof -
  obtain q where q: "lit (1 / 10 ^ 6) = Fin False q" using lit_micro by blast
  have "mul (Fin sg 0) (Fin False q) = Fin sg 0" by (simp add: round_num_0)
  moreover have "round_num False (real 1) = Fin False (real 1)" by (rule round_num_nat) simp
  ultimately show ?thesis unfolding q lit_1 by simp
qed

lemma toFixed_6_zero: "toFixed ts (Fin sg 0) 6 = Inr (str ''0.000000'')"
  by (simp add: toFixed_6_Fin digits_of_small str_def eval_nat_numeral)

lemma calculate_zero:
  assumes "\<forall>k. 1 \<le> k \<and> k \<le> 999 \<longrightarrow> pw (real k) 1 = Fin False (real k)"
    and "doc ''time'' = Some inp" and "doc ''output'' = Some out"
    and "parseFloat (el_value inp) = Fin sg 0"
  shows "mul (parseFloat (el_value inp))
           (series_sum pw (add (Fin False 1) (mul (parseFloat (el_value inp)) (lit (1 / 10 ^ 6)))))
         = Fin sg 0"
    and "calculate pw ts doc =
         Some (Inr (doc(''output'' \<mapsto> out\<lparr>el_innerText := str ''E(t) '' @ [0x2248] @ str '' 0.000000''\<rparr>)))"
proof -
  obtain r where r: "series_sum pw (Fin False 1) = Fin False r"
    using series_sum_harmonic [where pw = pw, OF assms(1)] by blast
  have s: "add (Fin False 1) (mul (Fin sg 0) (lit (1 / 10 ^ 6))) = Fin False 1"
    using exponent_at_zero [of sg] by (simp only: lit_1)
  show E: "mul (parseFloat (el_value inp))
           (series_sum pw (add (Fin False 1) (mul (parseFloat (el_value inp)) (lit (1 / 10 ^ 6)))))
         = Fin sg 0"
    unfolding assms(4) s r by (simp add: round_num_0)
  have "toFixed ts (mul (parseFloat (el_value inp))
           (series_sum pw (add (Fin False 1) (mul (parseFloat (el_value inp)) (lit (1 / 10 ^ 6)))))) 6
        = Inr (str ''0.000000'')"
    unfolding E by (rule toFixed_6_zero)
  from calculate_elements [OF assms(2,3) this]
  show "calculate pw ts doc =
         Some (Inr (doc(''output'' \<mapsto> out\<lparr>el_innerText := str ''E(t) '' @ [0x2248] @ str '' 0.000000''\<rparr>)))"
    by (simp add: str_def)
qed

lemma rounded_pow_exact:
  "\<forall>k. 1 \<le> k \<and> k \<le> 999 \<longrightarrow> rounded_pow (real k) 1 = Fin False (real k)"
proof (intro allI impI)
  fix k :: nat
  assume "1 \<le> k \<and> k \<le> 999"
  then have "k < 2 ^ 53" by simp
  then have "round_num False (real k) = Fin False (real k)" by (rule round_num_nat)
  then show "rounded_pow (real k) 1 = Fin False (real k)" by (simp add: rounded_pow_def)
qed

section \<open>The model on known binary64 values\<close>

text \<open>
  The decimal literals \<^verbatim>\<open>0.1\<close> and \<^verbatim>\<open>1e-6\<close>, the sum \<^verbatim>\<open>0.1 + 0.2\<close>, the quotient
  \<^verbatim>\<open>1 / 3\<close>, the product \<^verbatim>\<open>3 * 0.1\<close>, a parsed text and a printed value, as binary64
  has them.
\<close>

lemma bitlen_numeral: "bitlen (numeral v) = bitlen (numeral v div 2) + 1"
  by (subst compute_bitlen) simp

lemma bitlen_1: "bitlen 1 = 1"
  by (subst compute_bitlen) simp

lemmas eval_round = lit_def round_num_def rne_def quantum_def binexp_def round_even_def Let_def
  bitlen_numeral bitlen_1

lemmas eval_parse = parseFloat_def str_def is_space_def unsigned_literal_def is_digit_def
  digits_val_def scale10_def exponent_part_def

lemma lit_tenth: "lit (1 / 10) = Fin False (3602879701896397 / 36028797018963968)"
  by (simp add: eval_round)

lemma lit_micro_value: "lit (1 / 10 ^ 6) = Fin False (4722366482869645 / 4722366482869645213696)"
  by (simp add: eval_round)

lemma add_tenth_fifth:
  "add (lit (1 / 10)) (lit (2 / 10)) = Fin False (1351079888211149 / 4503599627370496)"
  by (simp add: eval_round)

lemma divide_third: "divide_num (lit 1) (lit 3) = Fin False (6004799503160661 / 18014398509481984)"
  by (simp add: eval_round)

lemma mul_three_tenths: "mul (lit 3) (lit (1 / 10)) = Fin False (1351079888211149 / 4503599627370496)"
  by (simp add: eval_round)

lemma parseFloat_example:
  "parseFloat (str '' -1.5e-1x'') = Fin True (5404319552844595 / 36028797018963968)"
  by (simp add: eval_parse eval_round)

lemma toFixed_example:
  "toFixed ts (Fin True (674651885226101 / 2147483648)) 6 = Inr (str ''-314159.265359'')"
  by (simp add: toFixed_6_Fin digits_of_small digits_of_large str_def)

lemma round_num_overflow:
  assumes "2 ^ 1024 \<le> m"
  shows "round_num sg m = Inf sg"
proof -
  have "(2::real) powi 1024 \<le> m" using assms by simp
  then have "(2::real) powi 1024 \<le> rne m" by (intro rne_ge_pow2) simp_all
  then have "2 ^ 1024 \<le> rne m" by simp
  then show ?thesis by (simp only: round_num_def Let_def if_True)
qed

section \<open>The series summation: what it returns\<close>

text \<open>
  C2.  For every exponent \<open>s\<close> (and every implementation of the approximated power),
  \<open>zeta\<close> returns, and what it returns is the accumulation of \<open>1 / k ^ s\<close> in binary64
  for \<open>k\<close> from \<open>1\<close> to \<open>999\<close> inclusive, in increasing order of \<open>k\<close>, starting from
  \<open>0\<close>: the loop of the source computes \<open>series_sum\<close>.
\<close>

theorem zeta_is_series_sum: "zeta pw s = Some (series_sum pw s)"
  by (rule zeta_series_sum)

text \<open>
  C3, as the code has it.  The loop starts at \<open>k = 1\<close> and runs while \<open>k < 1000\<close>, so
  the terms added are \<open>999\<close>, for every exponent: \<open>zeta_terms\<close> returns a list of
  \<open>999\<close> terms and \<open>zeta\<close> returns their sum from \<open>0\<close>, added in that order.  The
  number \<open>1000\<close> is the bound \<open>n\<close> of the loop, which is not reached.
\<close>

theorem zeta_adds_999_terms:
  "\<exists>ts. zeta_terms pw s = Some ts \<and> length ts = 999 \<and>
        zeta pw s = Some (foldl add (Fin False 0) ts)"
  by (rule zeta_terms_sum)

text \<open>
  C3 as stated fails: the number of terms added is not \<open>1000\<close> (here for the exponent
  \<open>NaN\<close>; the count does not depend on the exponent).
\<close>

theorem zeta_1000_terms_counterexample:
  "map_option length (zeta_terms (\<lambda>b e. NaN) NaN) \<noteq> Some 1000"
  by (simp add: zeta_terms_map length_indices)

text \<open>
  C9.  \<open>zeta\<close> is total: for every Number \<open>s\<close> it leaves its loop and returns a Number,
  and no operation in it raises (division, addition and \<open>pow\<close> are total functions on
  Numbers).  For \<open>NaN\<close> and for both infinities the Number returned is \<open>NaN\<close>:
  \<^verbatim>\<open>Math.pow(1, s)\<close> is \<open>NaN\<close> there.
\<close>

theorem zeta_total:
  "(\<exists>r. zeta pw s = Some r) \<and> zeta pw NaN = Some NaN \<and> zeta pw (Inf sg) = Some NaN"
  by (simp add: zeta_series_sum series_sum_NaN series_sum_Inf)

text \<open>
  C10.  For every finite exponent, \<open>zeta\<close> returns a Number that is \<open>>= 1\<close>, when
  the approximation in \<^verbatim>\<open>Math.pow\<close> meets two conditions: the approximated power of base \<open>1\<close> is
  exactly \<open>1\<close>, and the approximated power of a base \<open>>= 1\<close> is \<open>+0\<close>, positive or
  \<open>+Infinity\<close> (never negative, \<open>-0\<close> or \<open>NaN\<close>).  Then the first term is exactly
  \<open>1\<close> and every term is \<open>+0\<close>, positive or \<open>+Infinity\<close>.
\<close>

theorem zeta_ge_1:
  assumes "\<forall>e. pw 1 e = Fin False 1" and "\<forall>b e. 1 \<le> b \<longrightarrow> nonneg (pw b e)"
  shows "(\<exists>r. zeta pw (Fin sg m) = Some r \<and> ge r (Fin False 1)) \<and>
         (\<exists>ts. zeta_terms pw (Fin sg m) = Some ts \<and> hd ts = Fin False 1 \<and> list_all nonneg ts)"
proof -
  have "ge (series_sum pw (Fin sg m)) (Fin False 1)"
    by (rule series_sum_ge_1 [where pw = pw]) (rule assms(1), rule assms(2))
  then have sum: "\<exists>r. zeta pw (Fin sg m) = Some r \<and> ge r (Fin False 1)"
    by (simp only: zeta_series_sum) blast
  define f where "f k = divide_num (Fin False 1) (pow pw (Fin False (real k)) (Fin sg m))" for k
  have "f 1 = Fin False 1"
    unfolding f_def by (rule first_term [where pw = pw]) (rule assms(1))
  then have hd: "hd (map f indices) = Fin False 1" by (simp only: indices_Cons list.map list.sel)
  have "nonneg (f k)" if "k \<in> set indices" for k
  proof -
    have "1 \<le> k" using that by (simp add: set_indices)
    then show ?thesis
      unfolding f_def by (intro divide_nonneg pow_nonneg [where pw = pw]) (rule assms(2))
  qed
  then have "list_all nonneg (map f indices)" by (simp add: list_all_iff)
  with hd have "\<exists>ts. zeta_terms pw (Fin sg m) = Some ts \<and> hd ts = Fin False 1 \<and> list_all nonneg ts"
    unfolding zeta_terms_map f_def by blast
  with sum show ?thesis by blast
qed

theorem zeta_ge_1_witness:
  "(\<exists>r. zeta rounded_pow (Fin False 2) = Some r \<and> ge r (Fin False 1)) \<and>
   (\<exists>ts. zeta_terms rounded_pow (Fin False 2) = Some ts \<and> hd ts = Fin False 1 \<and>
      list_all nonneg ts)"
proof -
  have a: "\<forall>e. rounded_pow 1 e = Fin False 1" by (simp add: rounded_pow_1)
  have b: "\<forall>b e. 1 \<le> b \<longrightarrow> nonneg (rounded_pow b e)" by (simp add: rounded_pow_nonneg)
  show ?thesis by (rule zeta_ge_1 [where pw = rounded_pow, OF a b])
qed

section \<open>The derived display value: what is written\<close>

text \<open>
  C1.  On a page that has the field and the output element, \<open>calculate\<close> reads \<open>t\<close> from
  the field, computes \<open>s = 1 + t * 1e-6\<close> and \<open>E = t * zeta(s)\<close>, where \<open>zeta(s)\<close> is the
  series summation, and writes into the output element the text \<^verbatim>\<open>E(t) \<close>, the sign
  \<^verbatim>\<open>U+2248\<close>, a blank and \<open>E\<close> as \<^verbatim>\<open>toFixed(6)\<close> prints it.
\<close>

theorem calculate_contract:
  assumes "doc ''time'' = Some inp" and "doc ''output'' = Some out"
  shows "let t = parseFloat (el_value inp);
             s = add (lit 1) (mul t (lit (1 / 10 ^ 6)))
         in \<exists>z txt. zeta pw s = Some z \<and> z = series_sum pw s \<and>
              toFixed ts (mul t z) 6 = Inr txt \<and>
              calculate pw ts doc =
                Some (Inr (doc(''output'' \<mapsto>
                  out\<lparr>el_innerText := str ''E(t) '' @ [0x2248] @ str '' '' @ txt\<rparr>)))"
proof -
  define t where "t = parseFloat (el_value inp)"
  define s where "s = add (Fin False 1) (mul t (lit (1 / 10 ^ 6)))"
  obtain w where w: "toFixed ts (mul t (series_sum pw s)) 6 = Inr w"
    using toFixed_6_total by blast
  have "calculate pw ts doc =
        Some (Inr (doc(''output'' \<mapsto> out\<lparr>el_innerText := str ''E(t) '' @ [0x2248] @ str '' '' @ w\<rparr>)))"
    by (rule calculate_elements [OF assms]) (use w in \<open>simp only: t_def s_def\<close>)
  with w show ?thesis
    unfolding Let_def lit_1 t_def [symmetric] s_def [symmetric] zeta_series_sum by blast
qed

theorem calculate_contract_witness:
  "calculate rounded_pow (\<lambda>x. []) (page (str ''0'')) =
     Some (Inr ((page (str ''0''))(''output'' \<mapsto>
       \<lparr>el_value = [], el_innerText = str ''E(t) '' @ [0x2248] @ str '' 0.000000''\<rparr>)))"
proof -
  have p: "parseFloat (el_value \<lparr>el_value = str ''0'', el_innerText = []\<rparr>) = Fin False 0"
    by (simp add: parseFloat_0)
  have E: "mul (parseFloat (el_value \<lparr>el_value = str ''0'', el_innerText = []\<rparr>))
           (series_sum rounded_pow (add (Fin False 1)
              (mul (parseFloat (el_value \<lparr>el_value = str ''0'', el_innerText = []\<rparr>)) (lit (1 / 10 ^ 6)))))
         = Fin False 0"
    by (rule calculate_zero(1) [where pw = rounded_pow, OF rounded_pow_exact page_time page_output p])
  define prefix where "prefix = str ''E(t) '' @ [0x2248] @ str '' ''"
  from calculate_contract [OF page_time [of "str ''0''"] page_output, where ts = "\<lambda>x. []" and pw = rounded_pow]
  obtain z w where z: "z = series_sum rounded_pow (add (Fin False 1)
        (mul (parseFloat (el_value \<lparr>el_value = str ''0'', el_innerText = []\<rparr>)) (lit (1 / 10 ^ 6))))"
    and w: "toFixed (\<lambda>x. []) (mul (parseFloat (el_value \<lparr>el_value = str ''0'', el_innerText = []\<rparr>)) z) 6
        = Inr w"
    and c: "calculate rounded_pow (\<lambda>x. []) (page (str ''0'')) =
        Some (Inr ((page (str ''0''))(''output'' \<mapsto>
          \<lparr>el_value = [], el_innerText = []\<rparr>\<lparr>el_innerText := prefix @ w\<rparr>)))"
    unfolding Let_def lit_1 prefix_def append_assoc by blast
  have "Inr w = (Inr (str ''0.000000'') :: error + jsstring)"
    using w unfolding z E toFixed_6_zero by simp
  then have "w = str ''0.000000''" by simp
  then show ?thesis using c by (simp add: prefix_def str_def)
qed

text \<open>
  C4.  For every non-numeric text in the field (a text that is not numeric: the empty
  text, a blank text, any text that after white space and an optional sign starts with
  neither \<^verbatim>\<open>Infinity\<close>, nor a digit, nor a point and a digit), no error is raised:
  the parsed value is \<open>NaN\<close>, \<open>s\<close> is \<open>NaN\<close>, the series summation of \<open>NaN\<close> is
  \<open>NaN\<close>, \<open>E\<close> is \<open>NaN\<close>, and the text written is \<^verbatim>\<open>E(t) \<close>, the sign
  \<^verbatim>\<open>U+2248\<close> and \<^verbatim>\<open> NaN\<close>.  The non-numeric texts are exactly those that
  \<open>parseFloat\<close> maps to \<open>NaN\<close>.
\<close>

theorem calculate_not_a_number:
  assumes "doc ''time'' = Some inp" and "doc ''output'' = Some out"
    and "\<not> numeric_text (el_value inp)"
  shows "parseFloat (el_value inp) = NaN \<and>
         (\<forall>s. parseFloat s = NaN \<longleftrightarrow> \<not> numeric_text s) \<and>
         \<not> numeric_text [] \<and>
         parseFloat [] = NaN \<and>
         add (lit 1) (mul NaN (lit (1 / 10 ^ 6))) = NaN \<and>
         zeta pw NaN = Some NaN \<and>
         mul NaN NaN = NaN \<and>
         toFixed ts NaN 6 = Inr (str ''NaN'') \<and>
         calculate pw ts doc =
           Some (Inr (doc(''output'' \<mapsto>
             out\<lparr>el_innerText := str ''E(t) '' @ [0x2248] @ str '' NaN''\<rparr>)))"
proof -
  have p: "parseFloat (el_value inp) = NaN"
    using assms(3) parseFloat_NaN_iff [of "el_value inp"] by blast
  have "calculate pw ts doc =
           Some (Inr (doc(''output'' \<mapsto>
             out\<lparr>el_innerText := str ''E(t) '' @ [0x2248] @ str '' NaN''\<rparr>)))"
    by (rule calculate_NaN [OF assms(1,2) p])
  moreover have "\<forall>s. parseFloat s = NaN \<longleftrightarrow> \<not> numeric_text s"
    using parseFloat_NaN_iff by blast
  moreover have "add (lit 1) (mul NaN (lit (1 / 10 ^ 6))) = NaN"
    by (simp add: add_NaN_right)
  moreover have "zeta pw NaN = Some NaN"
    by (simp only: zeta_series_sum series_sum_NaN)
  moreover have "mul NaN NaN = NaN" by simp
  ultimately show ?thesis
    using p numeric_text_empty parseFloat_empty toFixed_6_NaN [of ts] by blast
qed

theorem calculate_not_a_number_witness:
  "\<not> numeric_text (el_value \<lparr>el_value = str ''abc'', el_innerText = []\<rparr>) \<and>
   parseFloat (el_value \<lparr>el_value = str ''abc'', el_innerText = []\<rparr>) = NaN \<and>
   calculate rounded_pow (\<lambda>x. []) (page (str ''abc'')) =
     Some (Inr ((page (str ''abc''))(''output'' \<mapsto>
       \<lparr>el_value = [], el_innerText = str ''E(t) '' @ [0x2248] @ str '' NaN''\<rparr>)))"
proof -
  have n: "\<not> numeric_text (el_value \<lparr>el_value = str ''abc'', el_innerText = []\<rparr>)"
    by (simp add: numeric_text_def numeric_start_def str_def is_space_def is_digit_def)
  from calculate_not_a_number [OF page_time page_output n, where ts = "\<lambda>x. []" and pw = rounded_pow] n
  show ?thesis by simp
qed

text \<open>
  C5, as the code has it.  When \<open>E\<close> is finite and its magnitude is below \<open>10 ^ 21\<close>, the
  text written has exactly six digits after the decimal point.  (\<^verbatim>\<open>toFixed\<close> prints
  \<open>NaN\<close> and the infinities by name and a magnitude of \<open>10 ^ 21\<close> or more in exponent
  notation.)
\<close>

theorem calculate_six_decimals_when_finite:
  assumes "doc ''time'' = Some inp" and "doc ''output'' = Some out"
    and "mul (parseFloat (el_value inp))
           (series_sum pw (add (Fin False 1) (mul (parseFloat (el_value inp)) (lit (1 / 10 ^ 6)))))
         = Fin sg m"
    and "\<bar>m\<bar> < 10 ^ 21"
  shows "\<exists>d r. calculate pw ts doc = Some (Inr d) \<and> d ''output'' = Some r \<and>
           six_decimals (el_innerText r)"
  using assms by (rule calculate_six_decimals)

theorem calculate_six_decimals_when_finite_witness:
  "\<exists>d r. calculate rounded_pow (\<lambda>x. []) (page (str ''0'')) = Some (Inr d) \<and>
         d ''output'' = Some r \<and> six_decimals (el_innerText r)"
proof -
  have p: "parseFloat (el_value \<lparr>el_value = str ''0'', el_innerText = []\<rparr>) = Fin False 0"
    by (simp add: parseFloat_0)
  have E: "mul (parseFloat (el_value \<lparr>el_value = str ''0'', el_innerText = []\<rparr>))
           (series_sum rounded_pow (add (Fin False 1)
              (mul (parseFloat (el_value \<lparr>el_value = str ''0'', el_innerText = []\<rparr>)) (lit (1 / 10 ^ 6)))))
         = Fin False 0"
    by (rule calculate_zero(1) [where pw = rounded_pow, OF rounded_pow_exact page_time page_output p])
  have small: "\<bar>0::real\<bar> < 10 ^ 21" by simp
  show ?thesis
    by (rule calculate_six_decimals_when_finite [OF page_time page_output E small])
qed

text \<open>
  C5 as stated fails: for the empty field the text written is \<^verbatim>\<open>E(t) \<close>, the sign
  \<^verbatim>\<open>U+2248\<close> and \<^verbatim>\<open> NaN\<close>, which has no decimal point.
\<close>

theorem calculate_NaN_not_six_decimals_counterexample:
  "\<exists>d r. calculate rounded_pow (\<lambda>x. []) (page []) = Some (Inr d) \<and> d ''output'' = Some r \<and>
         \<not> six_decimals (el_innerText r)"
proof -
  have "\<not> six_decimals (str ''E(t) '' @ [0x2248] @ str '' NaN'')"
    by (simp add: six_decimals_def str_def)
  then show ?thesis
    using calculate_NaN [OF page_time [of "[]"] page_output, where ts = "\<lambda>x. []" and pw = rounded_pow]
    by (simp add: parseFloat_empty)
qed

text \<open>
  C6.  For the input \<open>0\<close> (the field parses to \<open>+0\<close> or \<open>-0\<close>; the text \<^verbatim>\<open>0\<close> parses
  to \<open>+0\<close>): \<open>s\<close> is exactly \<open>1\<close>; the series summation returns a finite Number within
  \<open>999 / 2 ^ 49\<close> of the harmonic partial sum of \<open>999\<close> terms, between \<open>7.4844\<close> and
  \<open>7.4845\<close>, so within \<open>1 / 1000\<close> of \<open>7.485\<close>; \<open>E\<close> is zero and the text written ends
  in \<^verbatim>\<open>0.000000\<close>.  The approximated power is assumed exact for the exponent \<open>1\<close> on
  the bases \<open>1\<close> to \<open>999\<close>.
\<close>

theorem calculate_at_zero:
  assumes "\<forall>k. 1 \<le> k \<and> k \<le> 999 \<longrightarrow> pw (real k) 1 = Fin False (real k)"
    and "doc ''time'' = Some inp" and "doc ''output'' = Some out"
    and "parseFloat (el_value inp) = Fin sg 0"
  shows "parseFloat (str ''0'') = Fin False 0 \<and>
         add (lit 1) (mul (Fin sg 0) (lit (1 / 10 ^ 6))) = Fin False 1 \<and>
         (\<exists>r. zeta pw (Fin False 1) = Some (Fin False r) \<and>
              \<bar>r - harmonic\<bar> \<le> 999 / 2 ^ 49 \<and>
              74844 / 10000 < r \<and> r < 74845 / 10000 \<and> \<bar>r - 7485 / 1000\<bar> < 1 / 1000 \<and>
              mul (Fin sg 0) (Fin False r) = Fin sg 0) \<and>
         toFixed ts (Fin sg 0) 6 = Inr (str ''0.000000'') \<and>
         calculate pw ts doc =
           Some (Inr (doc(''output'' \<mapsto>
             out\<lparr>el_innerText := str ''E(t) '' @ [0x2248] @ str '' 0.000000''\<rparr>)))"
proof -
  obtain r where r: "series_sum pw (Fin False 1) = Fin False r" "\<bar>r - harmonic\<bar> \<le> 999 / 2 ^ 49"
    using series_sum_harmonic [where pw = pw, OF assms(1)] by blast
  have tiny: "(999::real) / 2 ^ 49 \<le> 1 / 10 ^ 10" by simp
  have lo: "74844708121 / 10 ^ 10 \<le> harmonic" and hi: "harmonic \<le> 74844709120 / 10 ^ 10"
    by (rule harmonic_bounds)+
  have tiny': "(999::real) / 2 ^ 49 \<le> 1 / 10000000000" using tiny by simp
  have lo': "74844708121 / 10000000000 \<le> harmonic" using lo by simp
  have hi': "harmonic \<le> 74844709120 / 10000000000" using hi by simp
  have b: "74844 / 10000 < r" "r < 74845 / 10000" "\<bar>r - 7485 / 1000\<bar> < 1 / 1000"
    using r(2) tiny' lo' hi' by linarith+
  have "mul (Fin sg 0) (Fin False r) = Fin sg 0" by (simp add: round_num_0)
  with r b have "\<exists>r. zeta pw (Fin False 1) = Some (Fin False r) \<and>
              \<bar>r - harmonic\<bar> \<le> 999 / 2 ^ 49 \<and>
              74844 / 10000 < r \<and> r < 74845 / 10000 \<and> \<bar>r - 7485 / 1000\<bar> < 1 / 1000 \<and>
              mul (Fin sg 0) (Fin False r) = Fin sg 0"
    unfolding zeta_series_sum by blast
  then show ?thesis
    using calculate_zero(2) [where pw = pw, OF assms] exponent_at_zero [of sg]
      toFixed_6_zero [of ts sg] parseFloat_0
    by blast
qed

theorem calculate_at_zero_witness:
  "(\<exists>r. zeta rounded_pow (Fin False 1) = Some (Fin False r) \<and>
        74844 / 10000 < r \<and> r < 74845 / 10000) \<and>
   calculate rounded_pow (\<lambda>x. []) (page (str ''0'')) =
     Some (Inr ((page (str ''0''))(''output'' \<mapsto>
       \<lparr>el_value = [], el_innerText = []\<rparr>\<lparr>el_innerText := str ''E(t) '' @ [0x2248] @ str '' 0.000000''\<rparr>)))"
proof -
  have p: "parseFloat (el_value \<lparr>el_value = str ''0'', el_innerText = []\<rparr>) = Fin False 0"
    by (simp add: parseFloat_0)
  from calculate_at_zero [where pw = rounded_pow and ts = "\<lambda>x. []",
      OF rounded_pow_exact page_time page_output p]
  show ?thesis by blast
qed

text \<open>
  C7.  The text written depends on the text of the field only: two pages whose fields
  hold the same text get the same text written, whatever else the pages hold and whatever
  was displayed before; and calling \<open>calculate\<close> again on the page it returned returns
  that page unchanged.  Nothing is kept between calls but the page itself.
\<close>

theorem calculate_is_deterministic:
  assumes "doc1 ''time'' = Some i1" and "doc2 ''time'' = Some i2"
    and "el_value i1 = el_value i2"
    and "doc1 ''output'' = Some o1" and "doc2 ''output'' = Some o2"
  shows "\<exists>d1 d2 r1 r2. calculate pw ts doc1 = Some (Inr d1) \<and> calculate pw ts doc2 = Some (Inr d2) \<and>
           d1 ''output'' = Some r1 \<and> d2 ''output'' = Some r2 \<and>
           el_innerText r1 = el_innerText r2 \<and>
           calculate pw ts d1 = Some (Inr d1)"
  using assms by (rule calculate_deterministic)

theorem calculate_is_deterministic_witness:
  "\<exists>d1 d2 r1 r2.
     calculate rounded_pow (\<lambda>x. []) (page (str ''0'')) = Some (Inr d1) \<and>
     calculate rounded_pow (\<lambda>x. [])
       ((page (str ''0''))(''output'' \<mapsto> \<lparr>el_value = [], el_innerText = str ''before''\<rparr>)) =
       Some (Inr d2) \<and>
     d1 ''output'' = Some r1 \<and> d2 ''output'' = Some r2 \<and>
     el_innerText r1 = el_innerText r2 \<and>
     calculate rounded_pow (\<lambda>x. []) d1 = Some (Inr d1)"
proof -
  have t2: "((page (str ''0''))(''output'' \<mapsto> \<lparr>el_value = [], el_innerText = str ''before''\<rparr>)) ''time''
      = Some \<lparr>el_value = str ''0'', el_innerText = []\<rparr>"
    by (simp add: page_def)
  have o2: "((page (str ''0''))(''output'' \<mapsto> \<lparr>el_value = [], el_innerText = str ''before''\<rparr>)) ''output''
      = Some \<lparr>el_value = [], el_innerText = str ''before''\<rparr>"
    by simp
  show ?thesis
    by (rule calculate_is_deterministic [OF page_time t2 refl page_output o2])
qed

text \<open>
  C8.  Every call of \<open>calculate\<close> returns, with the page written or with the
  \<^verbatim>\<open>TypeError\<close> of a missing element, whatever the page and the field hold; and the
  loop of the series summation is left after \<open>999\<close> passes, whatever its body does.
\<close>

theorem calculate_terminates:
  "(\<exists>r. calculate pw ts doc = Some r) \<and>
   for_loop (lit 1000) (\<lambda>k c. Suc c) (lit 1) 0 = Some 999"
  using calculate_returns [of pw ts doc] loop_count by blast

end
